theory Spec2Isabelle
  imports Complex_Main "HOL-Library.Word" "HOL-Library.Monad_Syntax"
begin

unbundle bit_operations_syntax

section \<open>Data model of \<^verbatim>\<open>rash.c\<close>\<close>

text \<open>
  A key is the sequence of bytes a \<^verbatim>\<open>const char *\<close> points to; reading stops at the
  first zero byte (or at the end of the list, where the terminator stands).
  An entry lives on the heap and is referred to by its address; \<^verbatim>\<open>NULL\<close> is
  \<open>None\<close>.  The payload pointer \<^verbatim>\<open>void *data\<close> is a machine word, \<^verbatim>\<open>NULL\<close> being 0.
\<close>

type_synonym byte = "8 word"
type_synonym size_t = "64 word"
type_synonym uint8_t = "8 word"
type_synonym ptr = nat

record hash_table_entry =
  key :: "byte list"
  hash :: size_t
  data :: size_t
  dist_from_des :: uint8_t

record hash_table =
  max_size_shift :: uint8_t
  max_size :: size_t
  curr_size :: size_t
  buckets :: "ptr option list"

text \<open>
  The memory the table works in: the table struct itself, the heap of entries
  (address \<open>a\<close> is live iff \<open>heap ! a = Some e\<close>), the answers the allocator
  will give to the coming \<^verbatim>\<open>malloc\<close>/\<^verbatim>\<open>calloc\<close> calls (\<open>True\<close>: memory is
  available; an exhausted list: out of memory), and the number of requests
  the allocator has turned down so far.
\<close>

record world = hash_table +
  heap :: "hash_table_entry option list"
  allocs :: "bool list"
  refused :: nat

definition HASH_TABLE_INITIAL_SHIFT :: nat where
  "HASH_TABLE_INITIAL_SHIFT = 4"

definition FIBONACCI_MULTIPLIER :: size_t where
  "FIBONACCI_MULTIPLIER = 11400714819323198485"

definition FIBONACCI_MULTIPLIER_32 :: "32 word" where
  "FIBONACCI_MULTIPLIER_32 = 2654435769"

section \<open>Hashing\<close>

text \<open>The bytes of a C string: everything before the first zero byte.\<close>

definition c_str :: "byte list \<Rightarrow> byte list" where
  "c_str s = takeWhile (\<lambda>c. c \<noteq> 0) s"

text \<open>
  \<^verbatim>\<open>int c = *str++\<close> followed by \<^verbatim>\<open>hash + c\<close>: the plain \<^verbatim>\<open>char\<close> is widened to
  \<^verbatim>\<open>int\<close> and then converted to \<^verbatim>\<open>size_t\<close>.  Plain \<^verbatim>\<open>char\<close> is signed on the
  x86-64 target for which the 64-bit multiplier is chosen, so the widening
  extends the sign; for the bytes below 128 this is the byte's value.
\<close>

definition char_to_size_t :: "byte \<Rightarrow> size_t" where
  "char_to_size_t c = scast c"

fun djb2_loop :: "size_t \<Rightarrow> byte list \<Rightarrow> size_t" where
  "djb2_loop h [] = h"
| "djb2_loop h (c # str) =
     (if c = 0 then h
      else djb2_loop ((push_bit 5 h + h) + char_to_size_t c) str)"

definition djb2_hash :: "byte list \<Rightarrow> size_t" where
  "djb2_hash str = djb2_loop 5381 str"

text \<open>
  \<^verbatim>\<open>fibonacci_hash(hash, bits)\<close>: a shift by a negative amount or by the full
  width of the word is undefined in C, so there is a result only for
  \<open>0 < bits \<le> 64\<close>.
\<close>

definition fibonacci_hash :: "size_t \<Rightarrow> nat \<Rightarrow> size_t option" where
  "fibonacci_hash h bits =
     (if 0 < bits \<and> bits \<le> 64
      then Some (drop_bit (64 - bits) (h * FIBONACCI_MULTIPLIER))
      else None)"

text \<open>The same two functions on a 32-bit \<^verbatim>\<open>size_t\<close>.\<close>

fun djb2_loop_32 :: "32 word \<Rightarrow> byte list \<Rightarrow> 32 word" where
  "djb2_loop_32 h [] = h"
| "djb2_loop_32 h (c # str) =
     (if c = 0 then h
      else djb2_loop_32 ((push_bit 5 h + h) + scast c) str)"

definition djb2_hash_32 :: "byte list \<Rightarrow> 32 word" where
  "djb2_hash_32 str = djb2_loop_32 5381 str"

definition fibonacci_hash_32 :: "32 word \<Rightarrow> nat \<Rightarrow> 32 word option" where
  "fibonacci_hash_32 h bits =
     (if 0 < bits \<and> bits \<le> 32
      then Some (drop_bit (32 - bits) (h * FIBONACCI_MULTIPLIER_32))
      else None)"

definition hash_table_get_position :: "('a hash_table_scheme) \<Rightarrow> byte list \<Rightarrow> size_t option" where
  "hash_table_get_position table k =
     fibonacci_hash (djb2_hash k) (unat (max_size_shift table))"

text \<open>
  The digest as the specification words it: start at 5381 and fold
  \<open>h \<leftarrow> h * 33 + c\<close> over the bytes \<open>c\<close> before the terminator, \<open>c\<close> being the
  value of the byte (0 to 255), in words of 64 and of 32 bits.
\<close>

definition djb2_spec :: "byte list \<Rightarrow> size_t" where
  "djb2_spec str = foldl (\<lambda>h c. h * 33 + ucast c) 5381 (c_str str)"

definition djb2_spec_32 :: "byte list \<Rightarrow> 32 word" where
  "djb2_spec_32 str = foldl (\<lambda>h c. h * 33 + ucast c) 5381 (c_str str)"

text \<open>
  The digest with the byte read as a signed \<^verbatim>\<open>char\<close>: a byte \<open>c\<close> of 128 or more
  counts as \<open>c - 256\<close>.
\<close>

definition djb2_signed_char :: "byte list \<Rightarrow> size_t" where
  "djb2_signed_char str =
     foldl (\<lambda>h c. if c < 0x80 then h * 33 + ucast c else h * 33 + ucast c - 256)
       5381 (c_str str)"

definition djb2_signed_char_32 :: "byte list \<Rightarrow> 32 word" where
  "djb2_signed_char_32 str =
     foldl (\<lambda>h c. if c < 0x80 then h * 33 + ucast c else h * 33 + ucast c - 256)
       5381 (c_str str)"


section \<open>Load factors\<close>

text \<open>
  The two load-factor tests compare a \<^verbatim>\<open>size_t\<close> with a product in \<^verbatim>\<open>float\<close>
  (IEEE 754 binary32, 24 significant bits, round to nearest, ties to even).
  \<open>to_float n\<close> is the value of \<^verbatim>\<open>(float) n\<close> for a natural number \<open>n\<close>; every
  \<^verbatim>\<open>size_t\<close> is in the range of the finite floats.  Rounding to 24 significant
  bits commutes with scaling by a power of two, so the products
  \<^verbatim>\<open>max_size * 0.75f\<close> (\<open>0.75f = 3 / 4\<close>) and \<^verbatim>\<open>max_size * 0.10f\<close>
  (\<open>0.10f = 13421773 / 2^27\<close>, the binary32 nearest to one tenth) are
  \<open>to_float (3 * m) / 4\<close> and \<open>to_float (13421773 * m) / 2^27\<close> for
  \<open>m = to_float max_size\<close>; both sides of each comparison are scaled to naturals.
\<close>

fun bit_length :: "nat \<Rightarrow> nat" where
  "bit_length n = (if n = 0 then 0 else Suc (bit_length (n div 2)))"

declare bit_length.simps [simp del]

definition to_float :: "nat \<Rightarrow> nat" where
  "to_float n =
     (if n < 2 ^ 24 then n
      else let e = bit_length n - 24;
               q = n div 2 ^ e;
               r = n mod 2 ^ e;
               half = 2 ^ (e - 1)
           in (if r < half \<or> (r = half \<and> even q) then q else q + 1) * 2 ^ e)"

definition hash_table_should_resize_up_factor :: "'a hash_table_scheme \<Rightarrow> bool" where
  "hash_table_should_resize_up_factor table \<longleftrightarrow>
     4 * to_float (unat (curr_size table + 1)) >
       to_float (3 * to_float (unat (max_size table)))"

definition hash_table_should_resize_down_factor :: "'a hash_table_scheme \<Rightarrow> bool" where
  "hash_table_should_resize_down_factor table \<longleftrightarrow>
     (if unat (max_size_shift table) \<le> HASH_TABLE_INITIAL_SHIFT then False
      else 2 ^ 27 * to_float (unat (curr_size table - 1)) <
             to_float (13421773 * to_float (unat (max_size table))))"

section \<open>Memory\<close>

text \<open>
  A result \<open>None\<close> of an operation below means that the C program has no defined
  behaviour there (a \<^verbatim>\<open>NULL\<close> or dangling pointer is dereferenced, an array is
  accessed outside its bounds, a shift amount is out of range) or, for the
  functions with a recursion budget, that the budget is used up.
\<close>

definition deref :: "world \<Rightarrow> ptr \<Rightarrow> hash_table_entry option" where
  "deref s p = (if p < length (heap s) then heap s ! p else None)"

definition store :: "world \<Rightarrow> ptr \<Rightarrow> hash_table_entry \<Rightarrow> world" where
  "store s p e = s\<lparr>heap := (heap s)[p := Some e]\<rparr>"

definition bucket_at :: "world \<Rightarrow> nat \<Rightarrow> ptr option option" where
  "bucket_at s i = (if i < length (buckets s) then Some (buckets s ! i) else None)"

definition set_bucket :: "world \<Rightarrow> nat \<Rightarrow> ptr option \<Rightarrow> world" where
  "set_bucket s i b = s\<lparr>buckets := (buckets s)[i := b]\<rparr>"

text \<open>
  One request to the allocator for a number of bytes: the next answer is
  consumed; no answer left means that memory is exhausted, and a request of
  \<open>2^64\<close> bytes or more is never granted.
\<close>

definition alloc_request :: "world \<Rightarrow> nat \<Rightarrow> bool \<times> world" where
  "alloc_request s bytes =
     (case allocs s of
        [] \<Rightarrow> (False, s\<lparr>refused := refused s + 1\<rparr>)
      | b # bs \<Rightarrow>
          if b \<and> bytes < 2 ^ 64 then (True, s\<lparr>allocs := bs\<rparr>)
          else (False, s\<lparr>allocs := bs, refused := refused s + 1\<rparr>))"

text \<open>
  \<^verbatim>\<open>calloc(sizeof(*table->buckets), max_size + max_size_shift)\<close>: the number of
  elements is computed in \<^verbatim>\<open>size_t\<close>, a pointer has 8 bytes.  The result is
  the zeroed array, or \<open>None\<close> for \<^verbatim>\<open>NULL\<close>.
\<close>

definition hash_table_buckets_alloc :: "world \<Rightarrow> ptr option list option \<times> world" where
  "hash_table_buckets_alloc s =
     (let n = unat (max_size s + ucast (max_size_shift s));
          (granted, s') = alloc_request s (8 * n)
      in (if granted then Some (replicate n None) else None, s'))"

text \<open>
  \<^verbatim>\<open>hash_table_entry_create\<close>: two requests, one for the entry (32 bytes) and
  one for the copy of the key with its terminator.  A new entry gets an
  address that has never been used.
\<close>

definition hash_table_entry_create ::
  "world \<Rightarrow> byte list \<Rightarrow> size_t \<Rightarrow> ptr option \<times> world" where
  "hash_table_entry_create s k d =
     (let (granted, s1) = alloc_request s 32 in
      if \<not> granted then (None, s1)
      else let (granted_key, s2) = alloc_request s1 (length (c_str k) + 1) in
        if \<not> granted_key then (None, s2)
        else (Some (length (heap s2)),
              s2\<lparr>heap := heap s2 @
                [Some \<lparr>key = c_str k, hash = djb2_hash k, data = d, dist_from_des = 0\<rparr>]\<rparr>))"

definition hash_table_entry_free :: "world \<Rightarrow> ptr \<Rightarrow> world option" where
  "hash_table_entry_free s p =
     (case deref s p of
        None \<Rightarrow> None
      | Some e \<Rightarrow> Some (s\<lparr>heap := (heap s)[p := None]\<rparr>))"


definition write_bucket :: "world \<Rightarrow> nat \<Rightarrow> ptr option \<Rightarrow> world option" where
  "write_bucket s i b = (if i < length (buckets s) then Some (set_bucket s i b) else None)"

section \<open>The table engine\<close>

text \<open>
  The counters \<^verbatim>\<open>position\<close> (\<^verbatim>\<open>size_t\<close>) and \<^verbatim>\<open>probe_count\<close> (\<^verbatim>\<open>uint8_t\<close>) are
  natural numbers here: \<^verbatim>\<open>probe_count\<close> is incremented only while it is below
  \<^verbatim>\<open>max_size_shift\<close>, which is at most 255, and \<^verbatim>\<open>position\<close> only after
  \<^verbatim>\<open>buckets[position]\<close> has been read inside the array, so neither wraps around.
\<close>

definition hash_table_is_next_found :: "world \<Rightarrow> nat \<Rightarrow> bool" where
  "hash_table_is_next_found table probe_count \<longleftrightarrow>
     probe_count < unat (max_size_shift table)"

definition hash_table_should_replace_entry ::
  "hash_table_entry \<Rightarrow> hash_table_entry \<Rightarrow> bool" where
  "hash_table_should_replace_entry entry1 entry2 \<longleftrightarrow>
     unat (dist_from_des entry1) > unat (dist_from_des entry2)"

text \<open>\<^verbatim>\<open>HASH_TABLE_ITERATE_TO_NEXT\<close> with an empty body, as in lookup and removal.\<close>

function iterate_to_next :: "world \<Rightarrow> byte list \<Rightarrow> nat \<Rightarrow> nat \<Rightarrow> (nat \<times> nat) option" where
  "iterate_to_next s key_value position probe_count =
     (if probe_count < unat (max_size_shift s) then
        do {
          b \<leftarrow> bucket_at s position;
          case b of
            None \<Rightarrow> Some (position, probe_count)
          | Some current \<Rightarrow> do {
              c \<leftarrow> deref s current;
              if c_str (key c) \<noteq> c_str key_value
              then iterate_to_next s key_value (position + 1) (probe_count + 1)
              else Some (position, probe_count)
            }
        }
      else Some (position, probe_count))"
  by pat_completeness auto
termination
  by (relation "measure (\<lambda>(s, k, position, probe_count). unat (max_size_shift s) - probe_count)") auto

declare iterate_to_next.simps [simp del]

definition hash_table_get :: "world \<Rightarrow> byte list \<Rightarrow> size_t option" where
  "hash_table_get s k =
     do {
       h \<leftarrow> hash_table_get_position s k;
       (position, probe_count) \<leftarrow> iterate_to_next s k (unat h) 0;
       if \<not> hash_table_is_next_found s probe_count then Some 0
       else do {
         b \<leftarrow> bucket_at s position;
         case b of
           None \<Rightarrow> Some 0
         | Some entry \<Rightarrow> do { e \<leftarrow> deref s entry; Some (data e) }
       }
     }"

definition hash_table_get_size :: "world \<Rightarrow> size_t" where
  "hash_table_get_size s = curr_size s"

text \<open>
  The loop of \<^verbatim>\<open>hash_table_insert\<close>: \<^verbatim>\<open>HASH_TABLE_ITERATE_TO_NEXT\<close> on the key of
  \<^verbatim>\<open>entry\<close>, with the swap of \<^verbatim>\<open>rich\<close> and the increment of its distance as body.
\<close>

function hash_table_insert_walk ::
  "world \<Rightarrow> ptr \<Rightarrow> ptr \<Rightarrow> nat \<Rightarrow> nat \<Rightarrow> (world \<times> ptr \<times> nat \<times> nat) option" where
  "hash_table_insert_walk s entry rich position probe_count =
     (if probe_count < unat (max_size_shift s) then
        do {
          b \<leftarrow> bucket_at s position;
          case b of
            None \<Rightarrow> Some (s, rich, position, probe_count)
          | Some current \<Rightarrow> do {
              c \<leftarrow> deref s current;
              e \<leftarrow> deref s entry;
              if c_str (key c) \<noteq> c_str (key e) then
                do {
                  r \<leftarrow> deref s rich;
                  let s1 = (if hash_table_should_replace_entry r c
                            then set_bucket s position (Some rich) else s);
                  let rich1 = (if hash_table_should_replace_entry r c
                               then current else rich);
                  r1 \<leftarrow> deref s1 rich1;
                  hash_table_insert_walk
                    (store s1 rich1 (r1\<lparr>dist_from_des := dist_from_des r1 + 1\<rparr>))
                    entry rich1 (position + 1) (probe_count + 1)
                }
              else Some (s, rich, position, probe_count)
            }
        }
      else Some (s, rich, position, probe_count))"
  by pat_completeness auto
termination
  by (relation "measure (\<lambda>(s, entry, rich, position, probe_count).
        unat (max_size_shift s) - probe_count)")
     (auto simp: store_def set_bucket_def)

declare hash_table_insert_walk.simps [simp del]

function hash_table_unwind_insertion_changes ::
  "world \<Rightarrow> ptr \<Rightarrow> ptr \<Rightarrow> nat \<Rightarrow> world option" where
  "hash_table_unwind_insertion_changes s inserted poor i =
     do {
       b \<leftarrow> bucket_at s i;
       p \<leftarrow> deref s poor;
       let s1 = store s poor (p\<lparr>dist_from_des := dist_from_des p - 1\<rparr>);
       current \<leftarrow> b;
       c \<leftarrow> deref s1 current;
       p1 \<leftarrow> deref s1 poor;
       let s2 = (if hash_table_should_replace_entry c p1
                 then set_bucket s1 i (Some poor) else s1);
       let poor1 = (if hash_table_should_replace_entry c p1 then current else poor);
       if poor1 = inserted \<or> i = 0 then Some s2
       else hash_table_unwind_insertion_changes s2 inserted poor1 (i - 1)
     }"
  by pat_completeness auto
termination
  by (relation "measure (\<lambda>(s, inserted, poor, i). i)") auto

declare hash_table_unwind_insertion_changes.simps [simp del]

text \<open>
  \<^verbatim>\<open>hash_table_rehash\<close> and \<^verbatim>\<open>hash_table_resize\<close> call \<^verbatim>\<open>hash_table_insert\<close>, which
  calls \<^verbatim>\<open>hash_table_resize\<close> again.  The two are written here over the insertion
  function \<open>ins\<close> they call; \<open>hash_table_insert_fuel\<close> below ties the knot.
\<close>

function hash_table_rehash_with ::
  "(world \<Rightarrow> ptr \<Rightarrow> (bool \<times> world) option) \<Rightarrow>
   world \<Rightarrow> ptr option list \<Rightarrow> nat \<Rightarrow> nat \<Rightarrow> world option" where
  "hash_table_rehash_with ins s old_buckets bound i =
     (if i < bound then
        (if i < length old_buckets then
           (case old_buckets ! i of
              None \<Rightarrow> hash_table_rehash_with ins s old_buckets bound (i + 1)
            | Some entry \<Rightarrow>
                (case deref s entry of
                   None \<Rightarrow> None
                 | Some e \<Rightarrow>
                     (case ins (store s entry (e\<lparr>dist_from_des := 0\<rparr>)) entry of
                        None \<Rightarrow> None
                      | Some (ok, s1) \<Rightarrow>
                          hash_table_rehash_with ins s1 old_buckets bound (i + 1))))
         else None)
      else Some s)"
  by pat_completeness auto
termination
  by (relation "measure (\<lambda>(ins, s, old_buckets, bound, i). bound - i)") auto

declare hash_table_rehash_with.simps [simp del]

definition hash_table_resize_with ::
  "(world \<Rightarrow> ptr \<Rightarrow> (bool \<times> world) option) \<Rightarrow> world \<Rightarrow> int \<Rightarrow> (bool \<times> world) option" where
  "hash_table_resize_with ins s shift_amount =
     (if \<not> (- 64 < shift_amount \<and> shift_amount < 64) then None
      else
        let old_max_size = max_size s;
            old_max_size_shift = max_size_shift s;
            s1 = s\<lparr>max_size_shift := max_size_shift s + word_of_int shift_amount,
                   max_size := (if shift_amount \<ge> 0
                                then push_bit (nat shift_amount) (max_size s)
                                else drop_bit (nat (- shift_amount)) (max_size s))\<rparr>;
            (new_buckets, s2) = hash_table_buckets_alloc s1
        in case new_buckets of
             None \<Rightarrow>
               Some (False, s2\<lparr>max_size := old_max_size,
                               max_size_shift := old_max_size_shift\<rparr>)
           | Some nb \<Rightarrow>
               (case hash_table_rehash_with ins (s2\<lparr>buckets := nb, curr_size := 0\<rparr>)
                       (buckets s2) (unat (old_max_size + ucast old_max_size_shift)) 0 of
                  None \<Rightarrow> None
                | Some s3 \<Rightarrow> Some (True, s3)))"

text \<open>
  \<^verbatim>\<open>hash_table_insert\<close>.  The first argument bounds the depth of the recursion
  through \<^verbatim>\<open>hash_table_resize\<close>; every such call consumes an answer of the
  allocator, so one more than the number of answers left is always enough.
\<close>

fun hash_table_insert_fuel :: "nat \<Rightarrow> world \<Rightarrow> ptr \<Rightarrow> (bool \<times> world) option" where
  "hash_table_insert_fuel 0 s entry = None"
| "hash_table_insert_fuel (Suc n) s entry =
     do {
       e \<leftarrow> deref s entry;
       h \<leftarrow> fibonacci_hash (hash e) (unat (max_size_shift s));
       (s1, rich, position, probe_count) \<leftarrow> hash_table_insert_walk s entry entry (unat h) 0;
       if hash_table_is_next_found s1 probe_count then
         do {
           b \<leftarrow> bucket_at s1 position;
           s2 \<leftarrow> (case b of
                   Some current \<Rightarrow> hash_table_entry_free s1 current
                 | None \<Rightarrow> Some (s1\<lparr>curr_size := curr_size s1 + 1\<rparr>));
           Some (True, set_bucket s2 position (Some rich))
         }
       else
         do {
           s2 \<leftarrow> hash_table_unwind_insertion_changes s1 entry rich
                   (unat (word_of_nat position - 1 :: size_t));
           (ok, s3) \<leftarrow> hash_table_resize_with (hash_table_insert_fuel n) s2 1;
           if \<not> ok then Some (False, s3)
           else do {
             e3 \<leftarrow> deref s3 entry;
             hash_table_insert_fuel n (store s3 entry (e3\<lparr>dist_from_des := 0\<rparr>)) entry
           }
         }
     }"

definition hash_table_insert :: "world \<Rightarrow> ptr \<Rightarrow> (bool \<times> world) option" where
  "hash_table_insert s entry = hash_table_insert_fuel (Suc (length (allocs s))) s entry"

definition hash_table_resize :: "world \<Rightarrow> int \<Rightarrow> (bool \<times> world) option" where
  "hash_table_resize s shift_amount =
     hash_table_resize_with (hash_table_insert_fuel (length (allocs s))) s shift_amount"


text \<open>
  The loop of \<^verbatim>\<open>hash_table_remove_from_position\<close>
  (\<^verbatim>\<open>HASH_TABLE_ITERATE_TO_END\<close>): entries that are not at their desired
  position move down by one slot.
\<close>

function hash_table_back_shift :: "world \<Rightarrow> nat \<Rightarrow> world option" where
  "hash_table_back_shift s position =
     (if position < unat (max_size s + ucast (max_size_shift s)) then
        do {
          b \<leftarrow> bucket_at s position;
          case b of
            None \<Rightarrow> Some s
          | Some entry \<Rightarrow> do {
              e \<leftarrow> deref s entry;
              if dist_from_des e = 0 then Some s
              else do {
                let s1 = store s entry (e\<lparr>dist_from_des := dist_from_des e - 1\<rparr>);
                s2 \<leftarrow> write_bucket s1 (unat (word_of_nat position - 1 :: size_t)) (Some entry);
                s3 \<leftarrow> write_bucket s2 position None;
                hash_table_back_shift s3 (position + 1)
              }
            }
        }
      else Some s)"
  by pat_completeness auto
termination
  by (relation "measure (\<lambda>(s, position).
        unat (max_size s + ucast (max_size_shift s)) - position)")
     (auto simp: store_def set_bucket_def write_bucket_def split: if_splits)

declare hash_table_back_shift.simps [simp del]

definition hash_table_remove_from_position :: "world \<Rightarrow> nat \<Rightarrow> (bool \<times> world) option" where
  "hash_table_remove_from_position s position =
     do {
       s1 \<leftarrow> write_bucket s position None;
       s2 \<leftarrow> hash_table_back_shift s1 (position + 1);
       Some (True, s2\<lparr>curr_size := curr_size s2 - 1\<rparr>)
     }"

definition hash_table_create :: "bool list \<Rightarrow> world option" where
  "hash_table_create answers =
     (let blank = \<lparr>max_size_shift = 0, max_size = 0, curr_size = 0, buckets = [],
                    heap = [], allocs = answers, refused = 0\<rparr>;
          (granted, s) = alloc_request blank 32
      in if \<not> granted then None
         else
           let s1 = s\<lparr>max_size_shift := word_of_nat HASH_TABLE_INITIAL_SHIFT,
                      max_size := push_bit HASH_TABLE_INITIAL_SHIFT 1\<rparr>;
               (new_buckets, s2) = hash_table_buckets_alloc s1
           in case new_buckets of
                None \<Rightarrow> None
              | Some nb \<Rightarrow> Some (s2\<lparr>buckets := nb\<rparr>))"

definition hash_table_add :: "world \<Rightarrow> byte list \<Rightarrow> size_t \<Rightarrow> (bool \<times> world) option" where
  "hash_table_add s k d =
     (case hash_table_entry_create s k d of
        (None, s1) \<Rightarrow> Some (False, s1)
      | (Some new_entry, s1) \<Rightarrow>
          do {
            (resized, s2) \<leftarrow> (if hash_table_should_resize_up_factor s1
                               then hash_table_resize s1 1 else Some (True, s1));
            if \<not> resized then
              do { s3 \<leftarrow> hash_table_entry_free s2 new_entry; Some (False, s3) }
            else do {
              (inserted, s3) \<leftarrow> hash_table_insert s2 new_entry;
              if \<not> inserted then
                do { s4 \<leftarrow> hash_table_entry_free s3 new_entry; Some (False, s4) }
              else Some (True, s3)
            }
          })"

definition hash_table_remove :: "world \<Rightarrow> byte list \<Rightarrow> (bool \<times> world) option" where
  "hash_table_remove s k =
     do {
       (resized, s1) \<leftarrow> (if hash_table_should_resize_down_factor s
                          then hash_table_resize s (- 1) else Some (True, s));
       if \<not> resized then Some (False, s1)
       else do {
         h \<leftarrow> hash_table_get_position s1 k;
         (position, probe_count) \<leftarrow> iterate_to_next s1 k (unat h) 0;
         if \<not> hash_table_is_next_found s1 probe_count then Some (False, s1)
         else do {
           b \<leftarrow> bucket_at s1 position;
           case b of
             None \<Rightarrow> Some (False, s1)
           | Some entry \<Rightarrow> do {
               s2 \<leftarrow> hash_table_entry_free s1 entry;
               hash_table_remove_from_position s2 position
             }
         }
       }
     }"



section \<open>The invariant of the table\<close>

text \<open>
  \<open>slot s i\<close> is the entry that slot \<open>i\<close> refers to, \<open>home_index s e\<close> the
  bucket the hash of \<open>e\<close> selects at the present capacity, and \<open>disp1 s i\<close> is
  0 for an empty slot and one more than the displacement of its entry
  otherwise.
\<close>

definition shift_of :: "world \<Rightarrow> nat" where
  "shift_of s = unat (max_size_shift s)"

definition slot :: "world \<Rightarrow> nat \<Rightarrow> hash_table_entry option" where
  "slot s i = (case bucket_at s i of Some (Some p) \<Rightarrow> deref s p | _ \<Rightarrow> None)"

definition disp1 :: "world \<Rightarrow> nat \<Rightarrow> nat" where
  "disp1 s i = (case slot s i of None \<Rightarrow> 0 | Some e \<Rightarrow> Suc (unat (dist_from_des e)))"

definition home_index :: "world \<Rightarrow> hash_table_entry \<Rightarrow> nat" where
  "home_index s e =
     (case fibonacci_hash (hash e) (shift_of s) of Some h \<Rightarrow> unat h | None \<Rightarrow> 0)"

definition sits :: "world \<Rightarrow> nat \<Rightarrow> hash_table_entry \<Rightarrow> bool" where
  "sits s i e \<longleftrightarrow>
     home_index s e + unat (dist_from_des e) = i
     \<and> unat (dist_from_des e) < shift_of s
     \<and> hash e = djb2_hash (key e)"

definition occupied :: "world \<Rightarrow> nat set" where
  "occupied s = {i. i < length (buckets s) \<and> buckets s ! i \<noteq> None}"

text \<open>
  The invariants of the specification: the capacity is \<open>2 ^ capacity_log2\<close> with
  \<open>capacity_log2 \<ge> 4\<close>, the array has \<open>capacity + capacity_log2\<close> slots, every
  occupied slot refers to a live entry that sits at its home index plus its
  displacement, with a displacement below \<open>capacity_log2\<close>, there is no gap
  between an entry and its home (the displacement grows by at most one from
  a slot to the next), keys are pairwise different, and \<^verbatim>\<open>curr_size\<close> counts
  the occupied slots.
\<close>

definition table_inv :: "world \<Rightarrow> bool" where
  "table_inv s \<longleftrightarrow>
     HASH_TABLE_INITIAL_SHIFT \<le> shift_of s \<and> shift_of s \<le> 60
     \<and> unat (max_size s) = 2 ^ shift_of s
     \<and> length (buckets s) = 2 ^ shift_of s + shift_of s
     \<and> (\<forall>i p. i < length (buckets s) \<and> buckets s ! i = Some p \<longrightarrow>
            (\<exists>e. deref s p = Some e \<and> sits s i e))
     \<and> (\<forall>i. Suc i < length (buckets s) \<longrightarrow> disp1 s (Suc i) \<le> Suc (disp1 s i))
     \<and> (\<forall>i j e e'. slot s i = Some e \<and> slot s j = Some e'
            \<and> c_str (key e) = c_str (key e') \<longrightarrow> i = j)
     \<and> unat (curr_size s) = card (occupied s)"

section \<open>Auxiliary notions of the proofs\<close>

definition table_shape :: "world \<Rightarrow> bool" where
  "table_shape s \<longleftrightarrow>
     HASH_TABLE_INITIAL_SHIFT \<le> shift_of s \<and> shift_of s \<le> 60
     \<and> unat (max_size s) = 2 ^ shift_of s
     \<and> length (buckets s) = 2 ^ shift_of s + shift_of s"

definition walk_table :: "world \<Rightarrow> ptr \<Rightarrow> nat \<Rightarrow> bool" where
  "walk_table s rich position \<longleftrightarrow>
     table_shape s
     \<and> (\<forall>i p. i < length (buckets s) \<and> buckets s ! i = Some p \<longrightarrow>
            (\<exists>e. deref s p = Some e \<and> sits s i e))
     \<and> (\<forall>i j e e'. slot s i = Some e \<and> slot s j = Some e'
            \<and> c_str (key e) = c_str (key e') \<longrightarrow> i = j)
     \<and> (\<forall>i. Suc i < length (buckets s) \<and> Suc i \<noteq> position \<longrightarrow>
            disp1 s (Suc i) \<le> Suc (disp1 s i))
     \<and> unat (curr_size s) = card (occupied s)
     \<and> (\<forall>i. i < length (buckets s) \<longrightarrow> buckets s ! i \<noteq> Some rich)"

definition carried_ok ::
  "world \<Rightarrow> ptr \<Rightarrow> ptr \<Rightarrow> nat \<Rightarrow> nat \<Rightarrow> hash_table_entry \<Rightarrow> hash_table_entry \<Rightarrow> bool" where
  "carried_ok s entry rich position probe_count ee re \<longleftrightarrow>
     hash ee = djb2_hash (key ee) \<and> hash re = djb2_hash (key re)
     \<and> position = home_index s ee + probe_count
     \<and> home_index s re + unat (dist_from_des re) = position
     \<and> unat (dist_from_des re) \<le> probe_count
     \<and> (0 < position \<longrightarrow> unat (dist_from_des re) \<le> disp1 s (position - 1))
     \<and> (position < length (buckets s) \<longrightarrow>
           (if rich = entry
            then 0 < position \<longrightarrow> disp1 s position \<le> Suc (disp1 s (position - 1))
            else disp1 s position \<le> Suc (unat (dist_from_des re))))
     \<and> (\<forall>i e. slot s i = Some e \<and> c_str (key e) = c_str (key re) \<longrightarrow>
           rich = entry \<and> position \<le> i)
     \<and> (rich \<noteq> entry \<longrightarrow> (\<exists>i<position. buckets s ! i = Some entry))"

definition walk_inv :: "world \<Rightarrow> ptr \<Rightarrow> ptr \<Rightarrow> nat \<Rightarrow> nat \<Rightarrow> bool" where
  "walk_inv s entry rich position probe_count \<longleftrightarrow>
     walk_table s rich position \<and> probe_count \<le> shift_of s
     \<and> (\<exists>ee re. deref s entry = Some ee \<and> deref s rich = Some re
           \<and> carried_ok s entry rich position probe_count ee re)"

definition payload :: "world \<Rightarrow> ptr \<Rightarrow> (byte list \<times> size_t \<times> size_t) option" where
  "payload s p = map_option (\<lambda>e. (key e, hash e, data e)) (deref s p)"

definition ptrs :: "world \<Rightarrow> ptr set" where
  "ptrs s = {p. \<exists>i < length (buckets s). buckets s ! i = Some p}"

definition same_fields :: "world \<Rightarrow> world \<Rightarrow> bool" where
  "same_fields s s' \<longleftrightarrow>
     max_size_shift s' = max_size_shift s \<and> max_size s' = max_size s
     \<and> curr_size s' = curr_size s \<and> allocs s' = allocs s \<and> refused s' = refused s
     \<and> length (heap s') = length (heap s) \<and> length (buckets s') = length (buckets s)
     \<and> (\<forall>p. payload s' p = payload s p)"

definition walk_stopped :: "world \<Rightarrow> ptr \<Rightarrow> nat \<Rightarrow> nat \<Rightarrow> bool" where
  "walk_stopped s E pos pc \<longleftrightarrow>
     pc = shift_of s
     \<or> (pc < shift_of s \<and> bucket_at s pos = Some None)
     \<or> (pc < shift_of s \<and> (\<exists>current ce ee. bucket_at s pos = Some (Some current)
           \<and> deref s current = Some ce
           \<and> deref s E = Some ee \<and> c_str (key ce) = c_str (key ee)))"

definition key_of :: "world \<Rightarrow> ptr \<Rightarrow> byte list option" where
  "key_of s p = map_option (\<lambda>e. c_str (key e)) (deref s p)"

definition new_entry :: "world \<Rightarrow> ptr \<Rightarrow> bool" where
  "new_entry s E \<longleftrightarrow>
     (\<exists>ee. deref s E = Some ee \<and> dist_from_des ee = 0 \<and> hash ee = djb2_hash (key ee))
     \<and> E \<notin> ptrs s"

definition ins_post :: "world \<Rightarrow> ptr \<Rightarrow> bool \<Rightarrow> world \<Rightarrow> bool" where
  "ins_post s E ok s' \<longleftrightarrow>
     table_inv s'
     \<and> length (heap s') = length (heap s)
     \<and> length (allocs s') \<le> length (allocs s)
     \<and> refused s \<le> refused s'
     \<and> (\<forall>p. payload s' p = payload s p
            \<or> (payload s' p = None \<and> p \<in> ptrs s \<and> key_of s p = key_of s E))
     \<and> ptrs s' \<subseteq> insert E (ptrs s)
     \<and> payload s' E = payload s E
     \<and> (ok \<longleftrightarrow> E \<in> ptrs s')
     \<and> (refused s' = refused s \<longrightarrow>
           ok \<and> ptrs s' = insert E {p \<in> ptrs s. key_of s p \<noteq> key_of s E})"

definition ins_ok :: "(world \<Rightarrow> ptr \<Rightarrow> (bool \<times> world) option) \<Rightarrow> nat \<Rightarrow> bool" where
  "ins_ok ins m \<longleftrightarrow>
     (\<forall>s E. table_inv s \<and> new_entry s E \<and> length (allocs s) < m \<longrightarrow>
        (\<exists>ok s'. ins s E = Some (ok, s') \<and> ins_post s E ok s'))"

definition pending :: "ptr option list \<Rightarrow> nat \<Rightarrow> nat \<Rightarrow> ptr set" where
  "pending old bound i = {p. \<exists>j. i \<le> j \<and> j < bound \<and> j < length old \<and> old ! j = Some p}"

definition rehash_post :: "world \<Rightarrow> ptr set \<Rightarrow> world \<Rightarrow> bool" where
  "rehash_post s P s' \<longleftrightarrow>
     table_inv s' \<and> length (heap s') = length (heap s)
     \<and> (\<forall>p. payload s' p = payload s p)
     \<and> ptrs s' \<subseteq> ptrs s \<union> P
     \<and> length (allocs s') \<le> length (allocs s)
     \<and> refused s \<le> refused s'
     \<and> (refused s' = refused s \<longrightarrow> ptrs s' = ptrs s \<union> P)"

definition resize_post :: "world \<Rightarrow> bool \<Rightarrow> world \<Rightarrow> bool" where
  "resize_post s ok s' \<longleftrightarrow>
     table_inv s' \<and> length (heap s') = length (heap s)
     \<and> (\<forall>p. payload s' p = payload s p)
     \<and> ptrs s' \<subseteq> ptrs s \<and> refused s \<le> refused s'
     \<and> length (allocs s') \<le> length (allocs s)
     \<and> (ok \<longrightarrow> length (allocs s') < length (allocs s))
     \<and> (\<not> ok \<longrightarrow> s' = s\<lparr>allocs := tl (allocs s), refused := Suc (refused s)\<rparr>)
     \<and> (refused s' = refused s \<longrightarrow> ok \<and> ptrs s' = ptrs s)"

declare hash_table_insert_fuel.simps [simp del]

definition hole_inv :: "world \<Rightarrow> nat \<Rightarrow> bool" where
  "hole_inv t hole \<longleftrightarrow>
     table_shape t \<and> hole < length (buckets t) \<and> buckets t ! hole = None
     \<and> (\<forall>i p. i < length (buckets t) \<and> buckets t ! i = Some p \<longrightarrow>
            (\<exists>e. deref t p = Some e \<and> sits t i e))
     \<and> (\<forall>i j e e'. slot t i = Some e \<and> slot t j = Some e'
            \<and> c_str (key e) = c_str (key e') \<longrightarrow> i = j)
     \<and> (\<forall>i. Suc i < length (buckets t) \<and> Suc i \<noteq> hole \<and> i \<noteq> hole \<longrightarrow>
            disp1 t (Suc i) \<le> Suc (disp1 t i))
     \<and> (Suc hole < length (buckets t) \<longrightarrow>
            disp1 t (Suc hole) \<le> (if hole = 0 then 0 else disp1 t (hole - 1)) + 2)
     \<and> unat (curr_size t) = Suc (card (occupied t))"

definition remove_post :: "world \<Rightarrow> byte list \<Rightarrow> bool \<Rightarrow> world \<Rightarrow> bool" where
  "remove_post s k ok s' \<longleftrightarrow>
     table_inv s' \<and> length (heap s') = length (heap s)
     \<and> refused s \<le> refused s' \<and> length (allocs s') \<le> length (allocs s)
     \<and> ptrs s' \<subseteq> ptrs s
     \<and> (\<forall>p. payload s' p = payload s p
            \<or> (payload s' p = None \<and> ok \<and> p \<in> ptrs s \<and> key_of s p = Some (c_str k)))
     \<and> (ok \<longrightarrow> (\<forall>p \<in> ptrs s'. key_of s p \<noteq> Some (c_str k))
               \<and> (\<exists>p \<in> ptrs s. key_of s p = Some (c_str k)))
     \<and> (refused s' = refused s \<longrightarrow>
          ptrs s' = {p \<in> ptrs s. key_of s p \<noteq> Some (c_str k)}
          \<and> (ok \<longleftrightarrow> (\<exists>p \<in> ptrs s. key_of s p = Some (c_str k))))"

definition frame_ok :: "(world \<Rightarrow> ptr \<Rightarrow> (bool \<times> world) option) \<Rightarrow> bool" where
  "frame_ok ins \<longleftrightarrow>
     (\<forall>s E ok s' x. ins s E = Some (ok, s') \<and> x \<notin> ptrs s \<and> x \<noteq> E \<longrightarrow>
        deref s' x = deref s x \<and> x \<notin> ptrs s')"

text \<open>
  The contents of a table as a map from keys to payloads: the entries that the
  slots refer to, in the order of the array, and the payload of the first one
  whose key is the given string.
\<close>

definition entries :: "world \<Rightarrow> hash_table_entry list" where
  "entries s = List.map_filter (\<lambda>b. case b of None \<Rightarrow> None | Some p \<Rightarrow> deref s p) (buckets s)"

definition stored :: "world \<Rightarrow> byte list \<Rightarrow> size_t option" where
  "stored s k = map_option data (find (\<lambda>e. c_str (key e) = c_str k) (entries s))"

definition add_post :: "world \<Rightarrow> byte list \<Rightarrow> size_t \<Rightarrow> bool \<Rightarrow> world \<Rightarrow> bool" where
  "add_post s k d ok s' \<longleftrightarrow>
     table_inv s' \<and> refused s \<le> refused s'
     \<and> (ok \<longrightarrow> stored s' k = Some d)
     \<and> (\<forall>k' d'. (c_str k' \<noteq> c_str k \<or> \<not> ok) \<and> stored s' k' = Some d'
            \<longrightarrow> stored s k' = Some d')
     \<and> (refused s' = refused s \<longrightarrow>
           ok \<and> (\<forall>k'. c_str k' \<noteq> c_str k \<longrightarrow> stored s' k' = stored s k')
           \<and> unat (curr_size s') =
               (if stored s k = None then Suc (unat (curr_size s)) else unat (curr_size s)))"

text \<open>
  Example states: a table of 16 buckets holding the twelve keys \<^verbatim>\<open>a\<close> to \<^verbatim>\<open>l\<close>;
  a table of 32 buckets left with four keys after the thirteen keys \<^verbatim>\<open>a\<close> to
  \<^verbatim>\<open>m\<close> were added and the first nine removed; a table of 16 buckets holding
  four keys of equal digest, \<^verbatim>\<open>bbz\<close>, \<^verbatim>\<open>bcY\<close>, \<^verbatim>\<open>bd8\<close> and \<^verbatim>\<open>cAz\<close>; the table
  struct of an empty table of 32 buckets, and of one of \<open>2^29\<close> buckets
  holding 53687092 entries.
\<close>

definition table_of_twelve :: world where
  "table_of_twelve =
     \<lparr>max_size_shift = 4, max_size = 16, curr_size = 12,
      buckets =
        [Some 8, Some 0, None, Some 5, Some 10, Some 2, Some 7, None, None,
         Some 4, Some 9, Some 1, Some 6, None, Some 11, Some 3, None, None,
         None, None],
      heap =
        [Some \<lparr>key = [97], hash = 177670, data = 1, dist_from_des = 0\<rparr>,
         Some \<lparr>key = [98], hash = 177671, data = 2, dist_from_des = 0\<rparr>,
         Some \<lparr>key = [99], hash = 177672, data = 3, dist_from_des = 0\<rparr>,
         Some \<lparr>key = [100], hash = 177673, data = 4, dist_from_des = 0\<rparr>,
         Some \<lparr>key = [101], hash = 177674, data = 5, dist_from_des = 0\<rparr>,
         Some \<lparr>key = [102], hash = 177675, data = 6, dist_from_des = 0\<rparr>,
         Some \<lparr>key = [103], hash = 177676, data = 7, dist_from_des = 0\<rparr>,
         Some \<lparr>key = [104], hash = 177677, data = 8, dist_from_des = 0\<rparr>,
         Some \<lparr>key = [105], hash = 177678, data = 9, dist_from_des = 0\<rparr>,
         Some \<lparr>key = [106], hash = 177679, data = 10, dist_from_des = 0\<rparr>,
         Some \<lparr>key = [107], hash = 177680, data = 11, dist_from_des = 0\<rparr>,
         Some \<lparr>key = [108], hash = 177681, data = 12, dist_from_des = 0\<rparr>],
      allocs = [], refused = 0\<rparr>"

definition table_of_four_at_32 :: world where
  "table_of_four_at_32 =
     \<lparr>max_size_shift = 5, max_size = 32, curr_size = 4,
      buckets =
        [None, None, None, None, None, None, None, None, Some 10, None,
         None, None, None, None, None, None, Some 12, None, None, None,
         None, Some 9, None, None, None, None, None, None, Some 11, None,
         None, None, None, None, None, None, None],
      heap =
        [None, None, None, None, None, None, None, None, None,
         Some \<lparr>key = [106], hash = 177679, data = 10, dist_from_des = 0\<rparr>,
         Some \<lparr>key = [107], hash = 177680, data = 11, dist_from_des = 0\<rparr>,
         Some \<lparr>key = [108], hash = 177681, data = 12, dist_from_des = 0\<rparr>,
         Some \<lparr>key = [109], hash = 177682, data = 13, dist_from_des = 0\<rparr>],
      allocs = [], refused = 0\<rparr>"

definition table_of_four_colliding :: world where
  "table_of_four_colliding =
     \<lparr>max_size_shift = 4, max_size = 16, curr_size = 4,
      buckets =
        [None, None, None, None, None, None, None, None, None, None, None,
         Some 0, Some 1, Some 2, Some 3, None, None, None, None, None],
      heap =
        [Some \<lparr>key = [98, 98, 122], hash = 193487075, data = 1, dist_from_des = 0\<rparr>,
         Some \<lparr>key = [98, 99, 89], hash = 193487075, data = 2, dist_from_des = 1\<rparr>,
         Some \<lparr>key = [98, 100, 56], hash = 193487075, data = 3, dist_from_des = 2\<rparr>,
         Some \<lparr>key = [99, 65, 122], hash = 193487075, data = 4, dist_from_des = 3\<rparr>],
      allocs = [], refused = 0\<rparr>"

definition table_of_five_colliding :: world where
  "table_of_five_colliding =
     \<lparr>max_size_shift = 5, max_size = 32, curr_size = 5,
      buckets =
        [None, None, None, None, None, None, None, None, None, None, None,
         None, None, None, None, None, None, None, None, None, None, None,
         None, Some 0, Some 1, Some 2, Some 3, Some 4, None, None, None,
         None, None, None, None, None, None],
      heap =
        [Some \<lparr>key = [98, 98, 122], hash = 193487075, data = 1, dist_from_des = 0\<rparr>,
         Some \<lparr>key = [98, 99, 89], hash = 193487075, data = 2, dist_from_des = 1\<rparr>,
         Some \<lparr>key = [98, 100, 56], hash = 193487075, data = 3, dist_from_des = 2\<rparr>,
         Some \<lparr>key = [99, 65, 122], hash = 193487075, data = 4, dist_from_des = 3\<rparr>,
         Some \<lparr>key = [99, 66, 89], hash = 193487075, data = 5, dist_from_des = 4\<rparr>],
      allocs = [], refused = 0\<rparr>"

definition table_empty_at_32 :: hash_table where
  "table_empty_at_32 =
     \<lparr>max_size_shift = 5, max_size = 32, curr_size = 0, buckets = replicate 37 None\<rparr>"

definition table_at_one_tenth :: hash_table where
  "table_at_one_tenth =
     \<lparr>max_size_shift = 29, max_size = 536870912, curr_size = 53687092,
      buckets = map Some [0..<53687092] @ replicate 483183849 None\<rparr>"

section \<open>Example tables\<close>

text \<open>
  The table struct after \<^verbatim>\<open>add("key1", _)\<close> and \<^verbatim>\<open>add("key2", _)\<close> on a new
  table, and one of capacity \<open>2^25\<close> filled to three quarters.
\<close>

definition table_of_two_keys :: hash_table where
  "table_of_two_keys =
     \<lparr>max_size_shift = 4, max_size = 16, curr_size = 2,
      buckets = replicate 6 None @ [Some 1] @ replicate 5 None @ [Some 2] @ replicate 7 None\<rparr>"

definition table_at_three_quarters :: hash_table where
  "table_at_three_quarters =
     \<lparr>max_size_shift = 25, max_size = 33554432, curr_size = 25165824,
      buckets = map Some [0..<25165824] @ replicate 8388633 None\<rparr>"

section \<open>Hashing: proofs\<close>

lemma djb2_loop_foldl:
  "djb2_loop h str = foldl (\<lambda>h c. h * 33 + char_to_size_t c) h (c_str str)"
proof (induction str arbitrary: h)
  case Nil
  show ?case by (simp add: c_str_def)
next
  case (Cons c str)
  have shift5: "push_bit 5 h + h = h * 33" for h :: size_t
    by (simp add: push_bit_eq_mult)
  show ?case
    using Cons.IH [of "h * 33 + char_to_size_t c"]
    by (simp add: c_str_def shift5)
qed

lemma djb2_loop_32_foldl:
  "djb2_loop_32 h str = foldl (\<lambda>h c. h * 33 + scast c) h (c_str str)"
proof (induction str arbitrary: h)
  case Nil
  show ?case by (simp add: c_str_def)
next
  case (Cons c str)
  have shift5: "push_bit 5 h + h = h * 33" for h :: "32 word"
    by (simp add: push_bit_eq_mult)
  show ?case
    using Cons.IH [of "h * 33 + scast c"]
    by (simp add: c_str_def shift5)
qed

lemma unat_drop_bit_top:
  fixes x :: "'a::len word"
  assumes "k \<le> LENGTH('a)"
  shows "unat (drop_bit (LENGTH('a) - k) x) < 2 ^ k"
proof -
  have "unat x < 2 ^ LENGTH('a)"
    by (rule unsigned_less)
  also have "(2::nat) ^ LENGTH('a) = 2 ^ (LENGTH('a) - k) * 2 ^ k"
    using assms by (simp flip: power_add)
  finally have "unat x div 2 ^ (LENGTH('a) - k) < 2 ^ k"
    by (simp add: less_mult_imp_div_less mult.commute)
  moreover have "unat (drop_bit (LENGTH('a) - k) x) = drop_bit (LENGTH('a) - k) (unat x)"
    by (rule unat_drop_bit_eq)
  moreover have "drop_bit (LENGTH('a) - k) (unat x) = unat x div 2 ^ (LENGTH('a) - k)"
    by (rule drop_bit_eq_div)
  ultimately show ?thesis
    by simp
qed

lemma fibonacci_hash_less:
  assumes "fibonacci_hash h bits = Some p"
  shows "unat p < 2 ^ bits"
  using assms unat_drop_bit_top [of bits "h * FIBONACCI_MULTIPLIER"]
  by (auto simp: fibonacci_hash_def split: if_splits)

section \<open>Load factors: proofs\<close>


lemma bit_length_le: "n < 2 ^ j \<Longrightarrow> bit_length n \<le> j"
proof (induction j arbitrary: n)
  case 0
  then show ?case by (simp add: bit_length.simps)
next
  case (Suc j)
  have "n div 2 < 2 ^ j" using Suc.prems by simp
  from Suc.IH [OF this] show ?case
    by (subst bit_length.simps) simp
qed

lemma bit_length_lower: "0 < n \<Longrightarrow> 2 ^ (bit_length n - 1) \<le> n"
proof (induction n rule: bit_length.induct)
  case (1 n)
  show ?case
  proof (cases "n div 2 = 0")
    case True
    then have "bit_length (n div 2) = 0" by (simp add: bit_length.simps)
    then show ?thesis using "1.prems" by (subst bit_length.simps) simp
  next
    case False
    then have pos: "0 < n div 2" by simp
    have ih: "2 ^ (bit_length (n div 2) - 1) \<le> n div 2"
      using "1.IH" "1.prems" pos by simp
    have "0 < bit_length (n div 2)"
      using pos by (subst bit_length.simps) simp
    then have "(2::nat) ^ bit_length (n div 2) = 2 * 2 ^ (bit_length (n div 2) - 1)"
      by (cases "bit_length (n div 2)") simp_all
    then show ?thesis
      using ih "1.prems" by (subst bit_length.simps) simp
  qed
qed

lemma to_float_exact: "n < 2 ^ 24 \<Longrightarrow> to_float n = n"
  by (simp add: to_float_def)

lemma bit_length_gt: "2 ^ j \<le> n \<Longrightarrow> j < bit_length n"
proof (induction j arbitrary: n)
  case 0
  then show ?case by (subst bit_length.simps) simp
next
  case (Suc j)
  have "2 ^ j \<le> n div 2" using Suc.prems by simp
  moreover have "n \<noteq> 0" using Suc.prems by (auto intro: ccontr)
  ultimately show ?case
    using Suc.IH [of "n div 2"] by (subst bit_length.simps) simp
qed

lemma to_float_large:
  assumes "2 ^ 24 \<le> n"
  shows "2 ^ 24 \<le> to_float n"
proof -
  define e where "e = bit_length n - 24"
  define q where "q = n div 2 ^ e"
  have b: "24 < bit_length n" using assms by (rule bit_length_gt)
  then have e: "bit_length n - 1 = 23 + e" "1 \<le> e" by (simp_all add: e_def)
  have "0 < n" using assms by (simp add: order_less_le_trans [of 0 "2 ^ 24"])
  then have "2 ^ (23 + e) \<le> n" using bit_length_lower [of n] e by simp
  then have "2 ^ 23 * 2 ^ e \<le> n" by (simp add: power_add)
  then have q: "2 ^ 23 \<le> q"
    unfolding q_def by (simp add: less_eq_div_iff_mult_less_eq)
  have "(2::nat) ^ 1 \<le> 2 ^ e" using e by (intro power_increasing) simp_all
  then have "(2::nat) \<le> 2 ^ e" by simp
  then have "2 ^ 23 * 2 \<le> q * 2 ^ e" using q by (rule mult_le_mono [rotated])
  then have le: "2 ^ 24 \<le> q * 2 ^ e" by simp
  have "to_float n = q * 2 ^ e \<or> to_float n = (q + 1) * 2 ^ e"
    using assms by (simp add: to_float_def Let_def e_def q_def)
  then show ?thesis using le by (auto simp: add_mult_distrib)
qed

lemma to_float_scaled:
  assumes "m < 2 ^ 24"
  shows "to_float (m * 2 ^ k) = m * 2 ^ k"
proof (cases "m * 2 ^ k < 2 ^ 24")
  case True
  then show ?thesis by (rule to_float_exact)
next
  case False
  define e where "e = bit_length (m * 2 ^ k) - 24"
  have "m * 2 ^ k < 2 ^ 24 * 2 ^ k" using assms by simp
  then have "m * 2 ^ k < 2 ^ (24 + k)" by (simp add: power_add)
  then have "bit_length (m * 2 ^ k) \<le> 24 + k" by (rule bit_length_le)
  then have ek: "e \<le> k" by (simp add: e_def)
  have "24 < bit_length (m * 2 ^ k)" using False by (intro bit_length_gt) simp
  then have epos: "0 < e" by (simp add: e_def)
  have dvd: "2 ^ e dvd m * 2 ^ k" using ek by (simp add: le_imp_power_dvd)
  then have r: "(m * 2 ^ k) mod 2 ^ e = 0" by simp
  have "(m * 2 ^ k) div 2 ^ e * 2 ^ e = m * 2 ^ k" using dvd by simp
  then show ?thesis
    using False r epos unfolding to_float_def Let_def e_def [symmetric]
    by simp
qed

lemma five_not_dvd_power2: "\<not> 5 dvd (2::nat) ^ j"
proof (induction j)
  case 0
  show ?case by simp
next
  case (Suc j)
  have "\<not> 5 dvd x \<longrightarrow> \<not> 5 dvd 2 * x" for x :: nat by presburger
  then show ?case using Suc by simp
qed

lemma tenth_cases:
  fixes n k :: nat
  assumes "1 \<le> k" "k \<le> 27"
  shows "2 ^ 27 * n < 13421773 * 2 ^ k \<longleftrightarrow> 10 * n < 2 ^ k"
proof
  assume "10 * n < 2 ^ k"
  then have "2 ^ 27 * (10 * n) < 2 ^ 27 * 2 ^ k" by simp
  also have "\<dots> \<le> 134217730 * 2 ^ k" by simp
  finally show "2 ^ 27 * n < 13421773 * 2 ^ k" by simp
next
  assume a: "2 ^ 27 * n < 13421773 * 2 ^ k"
  show "10 * n < 2 ^ k"
  proof (rule ccontr)
    assume "\<not> 10 * n < 2 ^ k"
    then have ge: "2 ^ k \<le> 10 * n" by simp
    obtain j where k: "k = Suc j" using assms by (cases k) simp_all
    have "\<not> 5 dvd (2::nat) ^ j" by (rule five_not_dvd_power2)
    then have "5 * n \<noteq> 2 ^ j" by (metis dvd_triv_left)
    then have "2 ^ j + 1 \<le> 5 * n" using ge k by simp
    then have "2 ^ 27 * (2 * (2 ^ j + 1)) \<le> 2 ^ 27 * (10 * n)" by simp
    then have "2 ^ 27 * 2 ^ k + 2 ^ 28 \<le> 10 * (2 ^ 27 * n)" by (simp add: k algebra_simps)
    moreover have "10 * (2 ^ 27 * n) < 10 * (13421773 * 2 ^ k)" using a by simp
    moreover have "(2::nat) ^ k \<le> 2 ^ 27" using assms by (intro power_increasing) simp_all
    ultimately show False by simp
  qed
qed



lemma sint_byte: "sint (c :: 8 word) = (if c < 0x80 then uint c else uint c - 256)"
proof -
  have s: "sint c = (uint c + 128) mod 256 - 128"
    using int_word_sint [of "uint c", where 'a = 8] by simp
  have r: "0 \<le> uint c" "uint c < 256" using uint_lt2p [of c] by simp_all
  have l: "c < 0x80 \<longleftrightarrow> uint c < 128" by (simp add: word_less_alt)
  show ?thesis
  proof (cases "uint c < 128")
    case True
    then have "(uint c + 128) mod 256 = uint c + 128"
      using r by (intro mod_pos_pos_trivial) simp_all
    then show ?thesis using s l True by simp
  next
    case False
    have "(uint c - 128 + 256) mod 256 = (uint c - 128) mod 256"
      by (rule mod_add_self2)
    moreover have "(uint c - 128) mod 256 = uint c - 128"
      using r False by (intro mod_pos_pos_trivial) simp_all
    moreover have "uint c - 128 + 256 = uint c + 128" by simp
    ultimately have "(uint c + 128) mod 256 = uint c - 128" by simp
    then show ?thesis using s l False by simp
  qed
qed

lemma scast_byte:
  "(scast (c :: 8 word) :: 'a::len word) = (if c < 0x80 then ucast c else ucast c - 256)"
proof -
  have "(scast c :: 'a word) = of_int (sint c)" by simp
  also have "\<dots> = (if c < 0x80 then of_int (uint c) else of_int (uint c) - 256)"
    by (simp add: sint_byte)
  finally show ?thesis by simp
qed

lemma djb2_hash_signed_char: "djb2_hash k = djb2_signed_char k"
proof -
  have "(\<lambda>h c. h * 33 + char_to_size_t c)
        = (\<lambda>h c. if c < 0x80 then h * 33 + ucast c else h * 33 + ucast c - 256)"
    by (intro ext) (simp add: char_to_size_t_def scast_byte)
  then show ?thesis
    by (simp add: djb2_hash_def djb2_signed_char_def djb2_loop_foldl)
qed

lemma djb2_hash_32_signed_char: "djb2_hash_32 k = djb2_signed_char_32 k"
proof -
  have "(\<lambda>h c. h * 33 + scast c)
        = (\<lambda>(h :: 32 word) (c :: byte).
             if c < 0x80 then h * 33 + ucast c else h * 33 + ucast c - 256)"
    by (intro ext) (simp add: scast_byte)
  then show ?thesis
    by (simp add: djb2_hash_32_def djb2_signed_char_32_def djb2_loop_32_foldl)
qed

lemma djb2_signed_char_ascii:
  assumes "\<forall>c \<in> set (c_str k). c < 0x80"
  shows "djb2_signed_char k = djb2_spec k" "djb2_signed_char_32 k = djb2_spec_32 k"
  using assms
  by (auto simp: djb2_signed_char_def djb2_spec_def djb2_signed_char_32_def djb2_spec_32_def
        intro!: foldl_cong)

text \<open>
  Claim C6, amended.  For every key the home index is the digest multiplied
  with wrap-around by the Fibonacci constant of the word size
  (11400714819323198485 for \<open>w = 64\<close>, 2654435769 for \<open>w = 32\<close>) and shifted
  right by \<open>w - capacity_log2\<close>, and it is below the capacity
  \<open>2 ^ capacity_log2\<close>.  The digest starts at 5381 and is updated, modulo
  \<open>2^w\<close>, by \<open>h \<leftarrow> h * 33 + c\<close> for each byte \<open>c < 128\<close> before the terminator
  and by \<open>h \<leftarrow> h * 33 + c - 256\<close> for each byte \<open>c \<ge> 128\<close> (the byte is read as a
  signed \<^verbatim>\<open>char\<close>); for a key whose bytes are all below 128 this is the DJB2
  digest of the specification.
\<close>

theorem home_index_is_fibonacci_of_signed_djb2:
  assumes "0 < unat (max_size_shift table)" and "unat (max_size_shift table) \<le> 64"
    and "0 < bits" and "bits \<le> 32"
  shows "(\<exists>p. hash_table_get_position table k = Some p
           \<and> p = drop_bit (64 - unat (max_size_shift table))
                   (djb2_signed_char k * 11400714819323198485)
           \<and> unat p < 2 ^ unat (max_size_shift table))
       \<and> (\<exists>p. fibonacci_hash_32 (djb2_hash_32 k) bits = Some p
           \<and> p = drop_bit (32 - bits) (djb2_signed_char_32 k * 2654435769)
           \<and> unat p < 2 ^ bits)
       \<and> ((\<forall>c \<in> set (c_str k). c < 0x80) \<longrightarrow>
             djb2_signed_char k = djb2_spec k \<and> djb2_signed_char_32 k = djb2_spec_32 k)"
proof -
  have a: "\<exists>p. hash_table_get_position table k = Some p
           \<and> p = drop_bit (64 - unat (max_size_shift table))
                   (djb2_signed_char k * 11400714819323198485)
           \<and> unat p < 2 ^ unat (max_size_shift table)"
    using assms(1,2)
      unat_drop_bit_top [of "unat (max_size_shift table)"
        "djb2_signed_char k * 11400714819323198485 :: size_t"]
    by (simp add: hash_table_get_position_def fibonacci_hash_def djb2_hash_signed_char
          FIBONACCI_MULTIPLIER_def)
  have b: "\<exists>p. fibonacci_hash_32 (djb2_hash_32 k) bits = Some p
           \<and> p = drop_bit (32 - bits) (djb2_signed_char_32 k * 2654435769)
           \<and> unat p < 2 ^ bits"
    using assms(3,4)
      unat_drop_bit_top [of bits "djb2_signed_char_32 k * 2654435769 :: 32 word"]
    by (simp add: fibonacci_hash_32_def djb2_hash_32_signed_char FIBONACCI_MULTIPLIER_32_def)
  have c: "(\<forall>c \<in> set (c_str k). c < 0x80) \<longrightarrow>
             djb2_signed_char k = djb2_spec k \<and> djb2_signed_char_32 k = djb2_spec_32 k"
    using djb2_signed_char_ascii [of k] by simp
  from a b c show ?thesis by blast
qed

text \<open>
  The home index of the key \<^verbatim>\<open>key1\<close> in a table of 16 buckets, by the formula
  of the specification.
\<close>

theorem home_index_is_fibonacci_of_signed_djb2_witness:
  "hash_table_get_position table_of_two_keys [0x6b, 0x65, 0x79, 0x31]
     = Some (drop_bit 60 (djb2_spec [0x6b, 0x65, 0x79, 0x31] * 11400714819323198485))
   \<and> hash_table_get_position table_of_two_keys [0x6b, 0x65, 0x79, 0x31] = Some 12
   \<and> fibonacci_hash_32 (djb2_hash_32 [0x6b, 0x65, 0x79, 0x31]) 4
     = Some (drop_bit 28 (djb2_spec_32 [0x6b, 0x65, 0x79, 0x31] * 2654435769))
   \<and> fibonacci_hash_32 (djb2_hash_32 [0x6b, 0x65, 0x79, 0x31]) 4 = Some 1"
  using home_index_is_fibonacci_of_signed_djb2
          [of table_of_two_keys 4 "[0x6b, 0x65, 0x79, 0x31]"]
  by (simp add: table_of_two_keys_def djb2_spec_def djb2_spec_32_def c_str_def)

text \<open>
  Claim C6 as stated fails for a key with a byte of 128 or more: for the key
  of the single byte \<^verbatim>\<open>0xff\<close> the formula of the specification gives the home
  index 11 in a table of 16 buckets, and the program computes 8.
\<close>

theorem home_index_of_byte_0xff:
  "hash_table_get_position table_of_two_keys [0xff] = Some 8
   \<and> drop_bit 60 (djb2_spec [0xff] * 11400714819323198485) = 11"
  by (simp add: table_of_two_keys_def hash_table_get_position_def fibonacci_hash_def
        djb2_hash_def char_to_size_t_def FIBONACCI_MULTIPLIER_def djb2_spec_def c_str_def)

lemma three_quarters_real: "(3 * c < 4 * (n::nat)) \<longleftrightarrow> (0.75 * real c < real n)"
proof -
  have "(3 * c < 4 * n) \<longleftrightarrow> (real (3 * c) < real (4 * n))"
    by (rule of_nat_less_iff [symmetric])
  also have "\<dots> \<longleftrightarrow> (3 * real c < 4 * real n)"
    by (simp only: of_nat_mult of_nat_numeral)
  also have "\<dots> \<longleftrightarrow> (0.75 * real c < real n)"
    by auto
  finally show ?thesis .
qed

lemma one_tenth_real: "(10 * n < (c::nat)) \<longleftrightarrow> (real n < 0.10 * real c)"
proof -
  have "(10 * n < c) \<longleftrightarrow> (real (10 * n) < real c)"
    by (rule of_nat_less_iff [symmetric])
  also have "\<dots> \<longleftrightarrow> (10 * real n < real c)"
    by (simp only: of_nat_mult of_nat_numeral)
  also have "\<dots> \<longleftrightarrow> (real n < 0.10 * real c)"
    by auto
  finally show ?thesis .
qed

section \<open>Memory primitives\<close>

lemma store_fields [simp]:
  "max_size_shift (store s p e) = max_size_shift s"
  "max_size (store s p e) = max_size s"
  "curr_size (store s p e) = curr_size s"
  "buckets (store s p e) = buckets s"
  "allocs (store s p e) = allocs s"
  "refused (store s p e) = refused s"
  "length (heap (store s p e)) = length (heap s)"
  by (simp_all add: store_def)

lemma set_bucket_fields [simp]:
  "max_size_shift (set_bucket s i b) = max_size_shift s"
  "max_size (set_bucket s i b) = max_size s"
  "curr_size (set_bucket s i b) = curr_size s"
  "heap (set_bucket s i b) = heap s"
  "allocs (set_bucket s i b) = allocs s"
  "refused (set_bucket s i b) = refused s"
  "length (buckets (set_bucket s i b)) = length (buckets s)"
  by (simp_all add: set_bucket_def)

lemma shift_of_store [simp]: "shift_of (store s p e) = shift_of s"
  by (simp add: shift_of_def)

lemma shift_of_set_bucket [simp]: "shift_of (set_bucket s i b) = shift_of s"
  by (simp add: shift_of_def)

lemma deref_store:
  "deref (store s p e) q = (if q = p \<and> p < length (heap s) then Some e else deref s q)"
  by (simp add: deref_def store_def)

lemma deref_set_bucket [simp]: "deref (set_bucket s i b) q = deref s q"
  by (simp add: deref_def)

lemma bucket_at_store [simp]: "bucket_at (store s p e) i = bucket_at s i"
  by (simp add: bucket_at_def)

lemma bucket_at_set_bucket:
  "bucket_at (set_bucket s i b) j =
     (if j = i \<and> i < length (buckets s) then Some b else bucket_at s j)"
  by (simp add: bucket_at_def set_bucket_def)

lemma deref_Some_live: "deref s p = Some e \<Longrightarrow> p < length (heap s)"
  by (simp add: deref_def split: if_splits)

lemma bucket_at_Some_iff: "bucket_at s i = Some b \<longleftrightarrow> i < length (buckets s) \<and> buckets s ! i = b"
  by (auto simp: bucket_at_def)

lemma slot_Some_iff:
  "slot s i = Some e \<longleftrightarrow>
     (\<exists>p. i < length (buckets s) \<and> buckets s ! i = Some p \<and> deref s p = Some e)"
  by (auto simp: slot_def bucket_at_def split: option.splits)

lemma home_index_store [simp]: "home_index (store s p e) x = home_index s x"
  by (simp add: home_index_def)

lemma home_index_set_bucket [simp]: "home_index (set_bucket s i b) x = home_index s x"
  by (simp add: home_index_def)

section \<open>Consequences of the invariant\<close>

lemma table_invD:
  assumes "table_inv s"
  shows "4 \<le> shift_of s" "shift_of s \<le> 60"
    "unat (max_size s) = 2 ^ shift_of s"
    "length (buckets s) = 2 ^ shift_of s + shift_of s"
    "unat (curr_size s) = card (occupied s)"
  using assms by (simp_all add: table_inv_def HASH_TABLE_INITIAL_SHIFT_def)

lemma table_inv_sits:
  assumes "table_inv s" "i < length (buckets s)" "buckets s ! i = Some p"
  shows "\<exists>e. deref s p = Some e \<and> sits s i e"
  using assms unfolding table_inv_def by blast

lemma table_inv_slot_sits:
  assumes "table_inv s" "slot s i = Some e"
  shows "sits s i e"
  using assms table_inv_sits [of s i] by (auto simp: slot_Some_iff)

lemma table_inv_step:
  assumes "table_inv s" "Suc i < length (buckets s)"
  shows "disp1 s (Suc i) \<le> Suc (disp1 s i)"
  using assms unfolding table_inv_def by blast

lemma table_inv_keys:
  assumes "table_inv s" "slot s i = Some e" "slot s j = Some e'"
    "c_str (key e) = c_str (key e')"
  shows "i = j"
  using assms unfolding table_inv_def by blast

lemma table_inv_chain:
  assumes "table_inv s" "i \<le> j" "j < length (buckets s)"
  shows "disp1 s j \<le> disp1 s i + (j - i)"
  using assms(2,3)
proof (induction j)
  case 0
  then show ?case by simp
next
  case (Suc j)
  show ?case
  proof (cases "i = Suc j")
    case True
    then show ?thesis by simp
  next
    case False
    then have "i \<le> j" using Suc.prems by simp
    moreover have "j < length (buckets s)" using Suc.prems by simp
    ultimately have "disp1 s j \<le> disp1 s i + (j - i)" by (rule Suc.IH)
    moreover have "disp1 s (Suc j) \<le> Suc (disp1 s j)"
      using assms(1) Suc.prems(2) by (rule table_inv_step)
    ultimately show ?thesis using \<open>i \<le> j\<close> by simp
  qed
qed

lemma home_index_less:
  assumes "0 < shift_of s" "shift_of s \<le> 64"
  shows "home_index s e < 2 ^ shift_of s"
  using assms fibonacci_hash_less [of "hash e" "shift_of s"]
  by (auto simp: home_index_def fibonacci_hash_def split: option.splits)

lemma disp1_pos_iff: "0 < disp1 s i \<longleftrightarrow> (\<exists>e. slot s i = Some e)"
  by (simp add: disp1_def split: option.splits)

lemma disp1_Some: "slot s i = Some e \<Longrightarrow> disp1 s i = Suc (unat (dist_from_des e))"
  by (simp add: disp1_def)

text \<open>Between the home of an entry and its slot every slot is occupied.\<close>

lemma table_inv_no_gap:
  assumes inv: "table_inv s" and e: "slot s q = Some e"
    and j: "home_index s e \<le> j" "j \<le> q"
  shows "\<exists>e'. slot s j = Some e'"
proof -
  have q: "q < length (buckets s)" using e by (auto simp: slot_Some_iff)
  have sits: "sits s q e" using inv e by (rule table_inv_slot_sits)
  have "disp1 s q \<le> disp1 s j + (q - j)" using inv j(2) q by (rule table_inv_chain)
  moreover have "disp1 s q = Suc (unat (dist_from_des e))" using e by (rule disp1_Some)
  moreover have "home_index s e + unat (dist_from_des e) = q" using sits by (simp add: sits_def)
  ultimately have "0 < disp1 s j" using j by simp
  then show ?thesis by (simp add: disp1_pos_iff)
qed

section \<open>Lookup\<close>

lemma djb2_hash_c_str: "c_str a = c_str b \<Longrightarrow> djb2_hash a = djb2_hash b"
  by (simp add: djb2_hash_def djb2_loop_foldl)

lemma c_str_idem [simp]: "c_str (c_str a) = c_str a"
  by (simp add: c_str_def)

lemma iterate_to_next_run:
  assumes "pc \<le> m" "m \<le> shift_of s"
    and "\<forall>j. pc \<le> j \<and> j < m \<longrightarrow> (\<exists>e. slot s (h + j) = Some e \<and> c_str (key e) \<noteq> c_str k)"
    and "m = shift_of s \<or> bucket_at s (h + m) = Some None
         \<or> (\<exists>e. slot s (h + m) = Some e \<and> c_str (key e) = c_str k)"
  shows "iterate_to_next s k (h + pc) pc = Some (h + m, m)"
  using assms(1,3)
proof (induction "m - pc" arbitrary: pc)
  case 0
  then have pc: "pc = m" by simp
  show ?case
    using assms(2,4) unfolding pc
    by (subst iterate_to_next.simps)
       (auto simp: shift_of_def slot_Some_iff bucket_at_def)
next
  case (Suc d)
  then have lt: "pc < m" by simp
  then obtain e where e: "slot s (h + pc) = Some e" "c_str (key e) \<noteq> c_str k"
    using Suc.prems(2) by auto
  then obtain p where p: "h + pc < length (buckets s)" "buckets s ! (h + pc) = Some p"
      "deref s p = Some e"
    by (auto simp: slot_Some_iff)
  have "iterate_to_next s k (h + Suc pc) (Suc pc) = Some (h + m, m)"
    using Suc.hyps(2) lt Suc.prems(2) by (intro Suc.hyps(1)) auto
  then show ?case
    using lt assms(2) p e(2)
    by (subst iterate_to_next.simps) (simp add: shift_of_def bucket_at_def)
qed

lemma get_position_home:
  assumes "table_inv s" "hash e = djb2_hash (key e)" "c_str (key e) = c_str k"
  shows "hash_table_get_position s k = Some (word_of_nat (home_index s e))"
    and "unat (word_of_nat (home_index s e) :: size_t) = home_index s e"
proof -
  have sh: "0 < shift_of s" "shift_of s \<le> 64"
    using table_invD(1,2) [OF assms(1)] by simp_all
  have h: "djb2_hash k = hash e"
    using assms(2,3) djb2_hash_c_str [of "key e" k] by simp
  obtain w where w: "fibonacci_hash (hash e) (shift_of s) = Some w"
    using sh by (auto simp: fibonacci_hash_def)
  then have hi: "home_index s e = unat w" by (simp add: home_index_def)
  show "hash_table_get_position s k = Some (word_of_nat (home_index s e))"
    using w by (simp add: hash_table_get_position_def h hi shift_of_def)
  show "unat (word_of_nat (home_index s e) :: size_t) = home_index s e"
    by (simp add: hi)
qed

lemma lookup_walk_found:
  assumes inv: "table_inv s" and e: "slot s q = Some e" and k: "c_str (key e) = c_str k"
  shows "iterate_to_next s k (home_index s e) 0 = Some (q, unat (dist_from_des e))"
proof -
  have sits: "sits s q e" using inv e by (rule table_inv_slot_sits)
  then have q: "home_index s e + unat (dist_from_des e) = q"
    and d: "unat (dist_from_des e) < shift_of s"
    by (simp_all add: sits_def)
  have "\<exists>e'. slot s (home_index s e + j) = Some e' \<and> c_str (key e') \<noteq> c_str k"
    if j: "j < unat (dist_from_des e)" for j
  proof -
    obtain e' where e': "slot s (home_index s e + j) = Some e'"
      using table_inv_no_gap [OF inv e, of "home_index s e + j"] j q by auto
    have "c_str (key e') \<noteq> c_str k"
    proof
      assume "c_str (key e') = c_str k"
      then have "home_index s e + j = q"
        using table_inv_keys [OF inv e' e] k by simp
      then show False using j q by simp
    qed
    then show ?thesis using e' by blast
  qed
  then have "iterate_to_next s k (home_index s e + 0) 0
      = Some (home_index s e + unat (dist_from_des e), unat (dist_from_des e))"
    using d e k q by (intro iterate_to_next_run) auto
  then show ?thesis using q by simp
qed

lemma get_found:
  assumes inv: "table_inv s" and e: "slot s q = Some e" and k: "c_str (key e) = c_str k"
  shows "hash_table_get s k = Some (data e)"
proof -
  have sits: "sits s q e" using inv e by (rule table_inv_slot_sits)
  then have d: "unat (dist_from_des e) < shift_of s" and h: "hash e = djb2_hash (key e)"
    by (simp_all add: sits_def)
  obtain p where p: "q < length (buckets s)" "buckets s ! q = Some p" "deref s p = Some e"
    using e by (auto simp: slot_Some_iff)
  show ?thesis
    using get_position_home [OF inv h k] lookup_walk_found [OF inv e k] d p
    by (simp add: hash_table_get_def hash_table_is_next_found_def shift_of_def bucket_at_def)
qed

lemma table_inv_empty_slot:
  assumes inv: "table_inv s" and "slot s i = None" "i < length (buckets s)"
  shows "bucket_at s i = Some None"
proof (cases "buckets s ! i")
  case None
  then show ?thesis using assms(3) by (simp add: bucket_at_def)
next
  case (Some p)
  then obtain e where "deref s p = Some e"
    using table_inv_sits [OF inv assms(3)] by blast
  then have "slot s i = Some e" using Some assms(3) by (simp add: slot_Some_iff)
  then show ?thesis using assms(2) by simp
qed

lemma key_position:
  assumes inv: "table_inv s"
  obtains w where "hash_table_get_position s k = Some w" "unat w < 2 ^ shift_of s"
proof -
  have sh: "0 < shift_of s" "shift_of s \<le> 64"
    using table_invD(1,2) [OF inv] by simp_all
  then obtain w where w: "fibonacci_hash (djb2_hash k) (shift_of s) = Some w"
    by (auto simp: fibonacci_hash_def)
  show ?thesis
    using w fibonacci_hash_less [OF w] that [of w]
    by (simp add: hash_table_get_position_def shift_of_def)
qed

lemma lookup_walk_absent:
  assumes inv: "table_inv s"
    and absent: "\<forall>q e. slot s q = Some e \<longrightarrow> c_str (key e) \<noteq> c_str k"
    and w: "hash_table_get_position s k = Some w"
  obtains m where "iterate_to_next s k (unat w) 0 = Some (unat w + m, m)"
    "m \<le> shift_of s" "m = shift_of s \<or> bucket_at s (unat w + m) = Some None"
proof -
  have wl: "unat w < 2 ^ shift_of s"
    using key_position [OF inv, of k] w by auto
  define m where "m = (LEAST j. j = shift_of s \<or> slot s (unat w + j) = None)"
  have m_prop: "m = shift_of s \<or> slot s (unat w + m) = None"
    unfolding m_def by (rule LeastI [of _ "shift_of s"]) simp
  have m_le: "m \<le> shift_of s"
    unfolding m_def by (rule Least_le) simp
  have before: "\<exists>e. slot s (unat w + j) = Some e \<and> c_str (key e) \<noteq> c_str k" if "j < m" for j
  proof -
    have "\<not> (j = shift_of s \<or> slot s (unat w + j) = None)"
      using that unfolding m_def by (rule not_less_Least)
    then show ?thesis using absent by auto
  qed
  have stop: "m = shift_of s \<or> bucket_at s (unat w + m) = Some None"
  proof (cases "m = shift_of s")
    case True
    then show ?thesis by simp
  next
    case False
    then have "slot s (unat w + m) = None" "m < shift_of s" using m_prop m_le by auto
    moreover have "unat w + m < length (buckets s)"
      using wl \<open>m < shift_of s\<close> table_invD(4) [OF inv] by simp
    ultimately show ?thesis using table_inv_empty_slot [OF inv] by simp
  qed
  have "iterate_to_next s k (unat w + 0) 0 = Some (unat w + m, m)"
    using m_le before stop by (intro iterate_to_next_run) auto
  then show ?thesis using m_le stop that [of m] by simp
qed

lemma get_absent:
  assumes inv: "table_inv s"
    and absent: "\<forall>q e. slot s q = Some e \<longrightarrow> c_str (key e) \<noteq> c_str k"
  shows "hash_table_get s k = Some 0"
proof -
  obtain w where w: "hash_table_get_position s k = Some w"
    using key_position [OF inv, of k] by blast
  obtain m where m: "iterate_to_next s k (unat w) 0 = Some (unat w + m, m)"
    "m \<le> shift_of s" "m = shift_of s \<or> bucket_at s (unat w + m) = Some None"
    using lookup_walk_absent [OF inv absent w] by blast
  show ?thesis
    using w m
    by (auto simp: hash_table_get_def hash_table_is_next_found_def shift_of_def)
qed

lemma table_inv_shape: "table_inv s \<Longrightarrow> table_shape s"
  by (simp add: table_inv_def table_shape_def)

lemma sits_store [simp]: "sits (store s p e) i x = sits s i x"
  by (simp add: sits_def)

lemma sits_set_bucket [simp]: "sits (set_bucket s j b) i x = sits s i x"
  by (simp add: sits_def)

lemma table_shape_store [simp]: "table_shape (store s p e) = table_shape s"
  by (simp add: table_shape_def)

lemma table_shape_set_bucket [simp]: "table_shape (set_bucket s i b) = table_shape s"
  by (simp add: table_shape_def)

lemma occupied_store [simp]: "occupied (store s p e) = occupied s"
  by (simp add: occupied_def)

lemma nth_update_cases:
  "j < length xs \<Longrightarrow> xs[i := v] ! j = (if j = i then v else xs ! j)"
  by (cases "i = j") simp_all

lemma occupied_set_bucket_Some:
  assumes "i < length (buckets s)"
  shows "occupied (set_bucket s i (Some p)) = insert i (occupied s)"
  using assms by (auto simp: occupied_def set_bucket_def nth_list_update)

lemma occupied_set_bucket_None:
  shows "occupied (set_bucket s i None) = occupied s - {i}"
  by (auto simp: occupied_def set_bucket_def nth_update_cases split: if_splits)

lemma slot_store_other:
  assumes "\<forall>i. i < length (buckets s) \<longrightarrow> buckets s ! i \<noteq> Some p"
  shows "slot (store s p e) i = slot s i"
  using assms by (auto simp: slot_def bucket_at_def deref_store split: option.splits)

lemma disp1_store_other:
  assumes "\<forall>i. i < length (buckets s) \<longrightarrow> buckets s ! i \<noteq> Some p"
  shows "disp1 (store s p e) i = disp1 s i"
  using slot_store_other [OF assms] by (simp add: disp1_def)

lemma unat_dist_Suc:
  fixes d :: uint8_t
  assumes "unat d < 255"
  shows "unat (d + 1) = Suc (unat d)"
  using assms by (simp add: unat_word_ariths)

lemma unat_dist_pred:
  fixes d :: uint8_t
  assumes "0 < unat d"
  shows "unat (d - 1) = unat d - 1"
  using assms by (simp add: unat_minus_one unat_gt_0)

lemma walk_inv_table: "walk_inv s E rich pos pc \<Longrightarrow> walk_table s rich pos"
  by (simp add: walk_inv_def)

lemma walk_inv_carried:
  assumes "walk_inv s E rich pos pc" "deref s E = Some ee" "deref s rich = Some re"
  shows "carried_ok s E rich pos pc ee re"
  using assms by (auto simp: walk_inv_def)

lemma walk_tableD:
  assumes "walk_table s rich pos"
  shows "table_shape s"
    "\<And>i p. i < length (buckets s) \<Longrightarrow> buckets s ! i = Some p \<Longrightarrow>
        \<exists>e. deref s p = Some e \<and> sits s i e"
    "\<And>i j e e'. slot s i = Some e \<Longrightarrow> slot s j = Some e' \<Longrightarrow>
        c_str (key e) = c_str (key e') \<Longrightarrow> i = j"
    "\<And>i. Suc i < length (buckets s) \<Longrightarrow> Suc i \<noteq> pos \<Longrightarrow>
        disp1 s (Suc i) \<le> Suc (disp1 s i)"
    "unat (curr_size s) = card (occupied s)"
    "\<And>i. i < length (buckets s) \<Longrightarrow> buckets s ! i \<noteq> Some rich"
  using assms unfolding walk_table_def by blast+

lemma carried_okD:
  assumes "carried_ok s E rich pos pc ee re"
  shows "hash ee = djb2_hash (key ee)" "hash re = djb2_hash (key re)"
    "pos = home_index s ee + pc"
    "home_index s re + unat (dist_from_des re) = pos"
    "unat (dist_from_des re) \<le> pc"
    "0 < pos \<Longrightarrow> unat (dist_from_des re) \<le> disp1 s (pos - 1)"
    "pos < length (buckets s) \<Longrightarrow> rich \<noteq> E \<Longrightarrow>
        disp1 s pos \<le> Suc (unat (dist_from_des re))"
    "\<And>i e. slot s i = Some e \<Longrightarrow> c_str (key e) = c_str (key re) \<Longrightarrow>
        rich = E \<and> pos \<le> i"
    "rich \<noteq> E \<Longrightarrow> \<exists>i<pos. buckets s ! i = Some E"
    "pos < length (buckets s) \<Longrightarrow> rich = E \<Longrightarrow> 0 < pos \<Longrightarrow>
        disp1 s pos \<le> Suc (disp1 s (pos - 1))"
  using assms by (auto simp: carried_ok_def split: if_splits)

lemma table_shapeD:
  assumes "table_shape s"
  shows "4 \<le> shift_of s" "shift_of s \<le> 60" "unat (max_size s) = 2 ^ shift_of s"
    "length (buckets s) = 2 ^ shift_of s + shift_of s"
  using assms by (simp_all add: table_shape_def HASH_TABLE_INITIAL_SHIFT_def)

lemma walk_step_keep:
  assumes J: "walk_inv s E rich pos pc" and pc: "pc < shift_of s"
    and cur: "bucket_at s pos = Some (Some current)" "deref s current = Some ce"
    and re: "deref s rich = Some re" and ee: "deref s E = Some ee"
    and neq: "c_str (key ce) \<noteq> c_str (key ee)"
    and keep: "\<not> hash_table_should_replace_entry re ce"
  shows "walk_inv (store s rich (re\<lparr>dist_from_des := dist_from_des re + 1\<rparr>)) E rich
           (Suc pos) (Suc pc)"
proof -
  define re' where "re' = re\<lparr>dist_from_des := dist_from_des re + 1\<rparr>"
  define s' where "s' = store s rich re'"
  note t = walk_tableD [OF walk_inv_table [OF J]]
  note c = carried_okD [OF walk_inv_carried [OF J ee re]]
  have pcle: "pc \<le> shift_of s" using pc by simp
  note sh = table_shapeD [OF t(1)]
  have r255: "unat (dist_from_des re) < 255" using c(5) pc sh(2) by simp
  have r': "unat (dist_from_des re') = Suc (unat (dist_from_des re))"
    using unat_dist_Suc [OF r255] by (simp add: re'_def)
  have posl: "pos < length (buckets s)" "buckets s ! pos = Some current"
    using cur(1) by (simp_all add: bucket_at_Some_iff)
  have notin: "\<forall>i. i < length (buckets s) \<longrightarrow> buckets s ! i \<noteq> Some rich"
    using t(6) by blast
  have slot': "slot s' i = slot s i" for i
    unfolding s'_def using notin by (rule slot_store_other)
  have disp': "disp1 s' i = disp1 s i" for i
    unfolding s'_def using notin by (rule disp1_store_other)
  have slotc: "slot s pos = Some ce"
    using posl cur(2) by (simp add: slot_Some_iff)
  have dc: "disp1 s pos = Suc (unat (dist_from_des ce))" using slotc by (rule disp1_Some)
  have rc: "unat (dist_from_des re) \<le> unat (dist_from_des ce)"
    using keep by (simp add: hash_table_should_replace_entry_def)
  have live: "rich < length (heap s)" using re by (rule deref_Some_live)
  have deref': "deref s' p = (if p = rich then Some re' else deref s p)" for p
    unfolding s'_def using live by (simp add: deref_store)
  have st [simp]: "buckets s' = buckets s" "shift_of s' = shift_of s"
    "occupied s' = occupied s" "curr_size s' = curr_size s"
    "table_shape s' = table_shape s"
    "\<And>i e. sits s' i e = sits s i e" "\<And>x. home_index s' x = home_index s x"
    by (simp_all add: s'_def)
  have "table_shape s'" using t(1) by simp
  moreover have "\<forall>i p. i < length (buckets s') \<and> buckets s' ! i = Some p \<longrightarrow>
            (\<exists>e. deref s' p = Some e \<and> sits s' i e)"
    using t(2) t(6) by (auto simp: deref')
  moreover have "\<forall>i j e e'. slot s' i = Some e \<and> slot s' j = Some e'
            \<and> c_str (key e) = c_str (key e') \<longrightarrow> i = j"
    using t(3) by (auto simp: slot')
  moreover have "\<forall>i. Suc i < length (buckets s') \<and> Suc i \<noteq> Suc pos \<longrightarrow>
            disp1 s' (Suc i) \<le> Suc (disp1 s' i)"
  proof (intro allI impI)
    fix i assume i: "Suc i < length (buckets s') \<and> Suc i \<noteq> Suc pos"
    show "disp1 s' (Suc i) \<le> Suc (disp1 s' i)"
    proof (cases "Suc i = pos")
      case True
      show ?thesis
      proof (cases "rich = E")
        case rE: True
        then show ?thesis using c(10) posl(1) True by (auto simp: disp')
      next
        case False
        have "unat (dist_from_des re) \<le> disp1 s i" using c(6) True by auto
        then show ?thesis using c(7) posl(1) True False by (auto simp: disp')
      qed
    next
      case False
      then show ?thesis using t(4) [of i] i by (simp add: disp')
    qed
  qed
  moreover have "unat (curr_size s') = card (occupied s')"
    using t(5) by simp
  moreover have "\<forall>i. i < length (buckets s') \<longrightarrow> buckets s' ! i \<noteq> Some rich"
    using t(6) by simp
  ultimately have T: "walk_table s' rich (Suc pos)"
    unfolding walk_table_def by blast
  have "\<exists>ee re. deref s' E = Some ee \<and> deref s' rich = Some re
           \<and> carried_ok s' E rich (Suc pos) (Suc pc) ee re"
  proof -
    define ee' where "ee' = (if E = rich then re' else ee)"
    have e1: "deref s' E = Some ee'" using ee by (simp add: deref' ee'_def)
    have e2: "deref s' rich = Some re'" by (simp add: deref')
    have k': "key ee' = key ee" "hash ee' = hash ee"
      using re ee by (auto simp: ee'_def re'_def)
    have kr': "key re' = key re" "hash re' = hash re" by (simp_all add: re'_def)
    have hi: "home_index s' x = home_index s x" for x by simp
    have hi2: "home_index s ee' = home_index s ee" "home_index s re' = home_index s re"
      using k' kr' by (simp_all add: home_index_def)
    have a: "hash ee' = djb2_hash (key ee')" using c(1) k' by simp
    have b: "hash re' = djb2_hash (key re')" using c(2) kr' by simp
    have c1: "Suc pos = home_index s' ee' + Suc pc" using c(3) by (simp add: hi hi2)
    have c2: "home_index s' re' + unat (dist_from_des re') = Suc pos"
      using c(4) by (simp add: hi hi2 r')
    have c3: "unat (dist_from_des re') \<le> Suc pc" using c(5) by (simp add: r')
    have c4: "unat (dist_from_des re') \<le> disp1 s' (Suc pos - 1)"
      using rc dc by (simp add: r' disp')
    have c5: "Suc pos < length (buckets s') \<longrightarrow>
           (if rich = E
            then 0 < Suc pos \<longrightarrow> disp1 s' (Suc pos) \<le> Suc (disp1 s' (Suc pos - 1))
            else disp1 s' (Suc pos) \<le> Suc (unat (dist_from_des re')))"
    proof
      assume "Suc pos < length (buckets s')"
      then have ch: "disp1 s (Suc pos) \<le> Suc (disp1 s pos)"
        using t(4) [of pos] by simp
      show "if rich = E
            then 0 < Suc pos \<longrightarrow> disp1 s' (Suc pos) \<le> Suc (disp1 s' (Suc pos - 1))
            else disp1 s' (Suc pos) \<le> Suc (unat (dist_from_des re'))"
      proof (cases "rich = E")
        case True
        then show ?thesis using ch by (simp add: disp')
      next
        case False
        then have "disp1 s pos \<le> Suc (unat (dist_from_des re))"
          using c(7) posl(1) by simp
        then show ?thesis using False ch dc by (simp add: r' disp')
      qed
    qed
    have c6: "\<forall>i e. slot s' i = Some e \<and> c_str (key e) = c_str (key re') \<longrightarrow>
                 rich = E \<and> Suc pos \<le> i"
    proof (intro allI impI)
      fix i e assume a: "slot s' i = Some e \<and> c_str (key e) = c_str (key re')"
      then have s: "slot s i = Some e" "c_str (key e) = c_str (key re)"
        by (simp_all add: slot' kr')
      from c(8) [OF this] have rE: "rich = E" "pos \<le> i" by simp_all
      have "i \<noteq> pos"
      proof
        assume "i = pos"
        then have "e = ce" using s(1) slotc by simp
        then show False using s(2) neq rE re ee by simp
      qed
      then show "rich = E \<and> Suc pos \<le> i" using rE by simp
    qed
    have c7: "rich \<noteq> E \<longrightarrow> (\<exists>i<Suc pos. buckets s' ! i = Some E)"
      using c(9) by (auto intro: less_SucI)
    have "carried_ok s' E rich (Suc pos) (Suc pc) ee' re'"
      unfolding carried_ok_def using a b c1 c2 c3 c4 c5 c6 c7 by simp
    then show ?thesis using e1 e2 by blast
  qed
  then show ?thesis
    using T pc unfolding walk_inv_def s'_def re'_def by simp
qed

lemma walk_table_inj:
  assumes t: "walk_table s rich pos"
    and "i < length (buckets s)" "j < length (buckets s)"
    and "buckets s ! i = Some p" "buckets s ! j = Some p"
  shows "i = j"
proof -
  obtain e where "deref s p = Some e"
    using walk_tableD(2) [OF t assms(2,4)] by blast
  then have "slot s i = Some e" "slot s j = Some e"
    using assms(2-5) by (simp_all add: slot_Some_iff)
  then show ?thesis using walk_tableD(3) [OF t] by blast
qed

lemma walk_table_chain:
  assumes t: "walk_table s rich pos" and "pos \<le> i" "i \<le> j" "j < length (buckets s)"
  shows "disp1 s j \<le> disp1 s i + (j - i)"
  using assms(3,4)
proof (induction j)
  case 0
  then show ?case by simp
next
  case (Suc j)
  show ?case
  proof (cases "i = Suc j")
    case True
    then show ?thesis by simp
  next
    case False
    then have ij: "i \<le> j" using Suc.prems by simp
    moreover have "j < length (buckets s)" using Suc.prems by simp
    ultimately have "disp1 s j \<le> disp1 s i + (j - i)" by (rule Suc.IH)
    moreover have "Suc j \<noteq> pos" using ij assms(2) by simp
    then have "disp1 s (Suc j) \<le> Suc (disp1 s j)"
      using walk_tableD(4) [OF t Suc.prems(2)] by simp
    ultimately show ?thesis using ij by simp
  qed
qed

lemma same_key_same_home:
  assumes "hash e = djb2_hash (key e)" "hash e' = djb2_hash (key e')"
    "c_str (key e) = c_str (key e')"
  shows "home_index s e = home_index s e'"
  using assms djb2_hash_c_str [of "key e" "key e'"] by (simp add: home_index_def)

lemma walk_step_swap:
  assumes J: "walk_inv s E rich pos pc" and pc: "pc < shift_of s"
    and cur: "bucket_at s pos = Some (Some current)" "deref s current = Some ce"
    and re: "deref s rich = Some re" and ee: "deref s E = Some ee"
    and neq: "c_str (key ce) \<noteq> c_str (key ee)"
    and swap: "hash_table_should_replace_entry re ce"
  shows "walk_inv (store (set_bucket s pos (Some rich)) current
                     (ce\<lparr>dist_from_des := dist_from_des ce + 1\<rparr>)) E current
           (Suc pos) (Suc pc)"
proof -
  define ce' where "ce' = ce\<lparr>dist_from_des := dist_from_des ce + 1\<rparr>"
  define s' where "s' = store (set_bucket s pos (Some rich)) current ce'"
  note T = walk_inv_table [OF J]
  note t = walk_tableD [OF T]
  note c = carried_okD [OF walk_inv_carried [OF J ee re]]
  note sh = table_shapeD [OF t(1)]
  have posl: "pos < length (buckets s)" "buckets s ! pos = Some current"
    using cur(1) by (simp_all add: bucket_at_Some_iff)
  have slotc: "slot s pos = Some ce"
    using posl cur(2) by (simp add: slot_Some_iff)
  have sitc: "sits s pos ce"
    using t(2) [OF posl] cur(2) by auto
  have dc: "disp1 s pos = Suc (unat (dist_from_des ce))" using slotc by (rule disp1_Some)
  have rc: "unat (dist_from_des ce) < unat (dist_from_des re)"
    using swap by (simp add: hash_table_should_replace_entry_def)
  have c255: "unat (dist_from_des ce) < 255" using rc c(5) pc sh(2) by simp
  have c': "unat (dist_from_des ce') = Suc (unat (dist_from_des ce))"
    using unat_dist_Suc [OF c255] by (simp add: ce'_def)
  have kc': "key ce' = key ce" "hash ce' = hash ce" by (simp_all add: ce'_def)
  have cr: "current \<noteq> rich" using t(6) [OF posl(1)] posl(2) by auto
  have cE: "current \<noteq> E"
  proof (cases "rich = E")
    case True
    then show ?thesis using cr by simp
  next
    case False
    then obtain i where i: "i < pos" "buckets s ! i = Some E" using c(9) by blast
    show ?thesis
    proof
      assume "current = E"
      then have "i = pos"
        using walk_table_inj [OF T _ posl(1) i(2)] i(1) posl by simp
      then show False using i(1) by simp
    qed
  qed
  have live: "current < length (heap s)" using cur(2) by (rule deref_Some_live)
  have st [simp]: "buckets s' = (buckets s)[pos := Some rich]" "shift_of s' = shift_of s"
    "curr_size s' = curr_size s" "table_shape s' = table_shape s"
    "\<And>i e. sits s' i e = sits s i e" "\<And>x. home_index s' x = home_index s x"
    by (simp_all add: s'_def set_bucket_def store_def shift_of_def table_shape_def
          sits_def home_index_def)
  have deref': "deref s' p = (if p = current then Some ce' else deref s p)" for p
    unfolding s'_def using live by (simp add: deref_store)
  have other: "buckets s ! i \<noteq> Some current" if "i < length (buckets s)" "i \<noteq> pos" for i
    using walk_table_inj [OF T that(1) posl(1) _ posl(2)] that(2) by auto
  have slot': "slot s' i = (if i = pos then Some re else slot s i)" for i
  proof (cases "i < length (buckets s)")
    case False
    then show ?thesis using posl(1) by (auto simp: slot_def bucket_at_def)
  next
    case True
    show ?thesis
    proof (cases "i = pos")
      case True
      then show ?thesis using posl(1) re cr by (simp add: slot_Some_iff deref')
    next
      case False
      then show ?thesis
        using True other [OF True False]
        by (auto simp: slot_def bucket_at_def deref' split: option.splits)
    qed
  qed
  have disp': "disp1 s' i = (if i = pos then Suc (unat (dist_from_des re)) else disp1 s i)" for i
    by (simp add: disp1_def slot')
  have occ: "occupied s' = occupied s"
  proof -
    have "pos \<in> occupied s" using posl by (simp add: occupied_def)
    moreover have "occupied s' = insert pos (occupied s)"
      using posl(1) by (auto simp: occupied_def nth_update_cases)
    ultimately show ?thesis by auto
  qed
  have "table_shape s'" using t(1) by simp
  moreover have "\<forall>i p. i < length (buckets s') \<and> buckets s' ! i = Some p \<longrightarrow>
            (\<exists>e. deref s' p = Some e \<and> sits s' i e)"
  proof (intro allI impI)
    fix i p assume a: "i < length (buckets s') \<and> buckets s' ! i = Some p"
    show "\<exists>e. deref s' p = Some e \<and> sits s' i e"
    proof (cases "i = pos")
      case True
      then have "p = rich" using a by auto
      moreover have "sits s pos re"
        using c(2,4,5) pc by (simp add: sits_def)
      ultimately show ?thesis using True re cr by (simp add: deref')
    next
      case False
      then have b: "i < length (buckets s)" "buckets s ! i = Some p" using a by simp_all
      then have "p \<noteq> current" using other [OF b(1) False] by auto
      then show ?thesis using t(2) [OF b] by (simp add: deref')
    qed
  qed
  moreover have "\<forall>i j e e'. slot s' i = Some e \<and> slot s' j = Some e'
            \<and> c_str (key e) = c_str (key e') \<longrightarrow> i = j"
  proof -
    have clash: False
      if j: "slot s j = Some e'" "j \<noteq> pos" "c_str (key e') = c_str (key re)" for j e'
    proof -
      have rE: "rich = E" "pos \<le> j" using c(8) [OF j(1,3)] by simp_all
      then have eq: "re = ee" using re ee by simp
      have jl: "j < length (buckets s)" using j(1) by (auto simp: slot_Some_iff)
      obtain p where "buckets s ! j = Some p" "deref s p = Some e'"
        using j(1) by (auto simp: slot_Some_iff)
      then have sj: "sits s j e'" using t(2) [OF jl] by auto
      have "home_index s e' = home_index s re"
        using sj c(2) j(3) by (intro same_key_same_home) (simp_all add: sits_def)
      then have "home_index s re + unat (dist_from_des e') = j"
        using sj by (simp add: sits_def)
      moreover have "disp1 s j \<le> disp1 s pos + (j - pos)"
        using T _ rE(2) jl by (rule walk_table_chain) simp
      moreover have "disp1 s j = Suc (unat (dist_from_des e'))" using j(1) by (rule disp1_Some)
      ultimately show False using dc rc c(4) rE(2) by simp
    qed
    show ?thesis
    proof (intro allI impI)
      fix i j e e'
      assume a: "slot s' i = Some e \<and> slot s' j = Some e' \<and> c_str (key e) = c_str (key e')"
      show "i = j"
      proof (cases "i = pos")
        case ip: True
        show ?thesis
        proof (cases "j = pos")
          case True
          then show ?thesis using ip by simp
        next
          case False
          then show ?thesis using a ip clash [of j e'] by (simp add: slot')
        qed
      next
        case ip: False
        show ?thesis
        proof (cases "j = pos")
          case True
          then show ?thesis using a ip clash [of i e] by (simp add: slot')
        next
          case False
          then show ?thesis using a ip t(3) [of i e j e'] by (simp add: slot')
        qed
      qed
    qed
  qed
  moreover have "\<forall>i. Suc i < length (buckets s') \<and> Suc i \<noteq> Suc pos \<longrightarrow>
            disp1 s' (Suc i) \<le> Suc (disp1 s' i)"
  proof (intro allI impI)
    fix i assume i: "Suc i < length (buckets s') \<and> Suc i \<noteq> Suc pos"
    show "disp1 s' (Suc i) \<le> Suc (disp1 s' i)"
    proof (cases "Suc i = pos")
      case True
      then have "unat (dist_from_des re) \<le> disp1 s i" using c(6) by auto
      then show ?thesis using True i by (simp add: disp')
    next
      case False
      then show ?thesis using t(4) [of i] i by (simp add: disp')
    qed
  qed
  moreover have "unat (curr_size s') = card (occupied s')"
    using t(5) by (simp add: occ)
  moreover have "\<forall>i. i < length (buckets s') \<longrightarrow> buckets s' ! i \<noteq> Some current"
    using other cr by (auto simp: nth_update_cases)
  ultimately have T': "walk_table s' current (Suc pos)"
    unfolding walk_table_def by blast
  have e1: "deref s' E = Some ee" using ee cE by (simp add: deref')
  have e2: "deref s' current = Some ce'" by (simp add: deref')
  have hi2: "home_index s ce' = home_index s ce"
    using kc' by (simp add: home_index_def)
  have a: "hash ee = djb2_hash (key ee)" by (rule c(1))
  have b: "hash ce' = djb2_hash (key ce')" using sitc kc' by (simp add: sits_def)
  have c1: "Suc pos = home_index s' ee + Suc pc" using c(3) by simp
  have c2: "home_index s' ce' + unat (dist_from_des ce') = Suc pos"
    using sitc by (simp add: hi2 c' sits_def)
  have c3: "unat (dist_from_des ce') \<le> Suc pc" using rc c(5) by (simp add: c')
  have c4: "unat (dist_from_des ce') \<le> disp1 s' (Suc pos - 1)"
    using rc by (simp add: c' disp')
  have c5: "Suc pos < length (buckets s') \<longrightarrow>
              disp1 s' (Suc pos) \<le> Suc (unat (dist_from_des ce'))"
    using t(4) [of pos] dc by (simp add: c' disp')
  have c6: "\<forall>i e. slot s' i = Some e \<and> c_str (key e) = c_str (key ce') \<longrightarrow>
              current = E \<and> Suc pos \<le> i"
  proof (intro allI impI)
    fix i e assume h: "slot s' i = Some e \<and> c_str (key e) = c_str (key ce')"
    have False
    proof (cases "i = pos")
      case True
      then have "c_str (key ce) = c_str (key re)" using h by (simp add: slot' kc')
      from c(8) [OF slotc this] have "rich = E" by simp
      then have "re = ee" using re ee by simp
      then show False using \<open>c_str (key ce) = c_str (key re)\<close> neq by simp
    next
      case False
      then have "slot s i = Some e" "c_str (key e) = c_str (key ce)"
        using h by (simp_all add: slot' kc')
      then have "i = pos" using t(3) [OF _ slotc] by blast
      then show False using False by simp
    qed
    then show "current = E \<and> Suc pos \<le> i" ..
  qed
  have c7: "\<exists>i<Suc pos. buckets s' ! i = Some E"
  proof (cases "rich = E")
    case True
    then show ?thesis using posl(1) by (intro exI [of _ pos]) simp
  next
    case False
    then obtain i where "i < pos" "buckets s ! i = Some E" using c(9) by blast
    then show ?thesis by (intro exI [of _ i]) simp
  qed
  have "carried_ok s' E current (Suc pos) (Suc pc) ee ce'"
    unfolding carried_ok_def using a b c1 c2 c3 c4 c5 c6 c7 cE by simp
  then show ?thesis
    using T' pc e1 e2 unfolding walk_inv_def s'_def ce'_def by auto
qed

lemma same_fields_refl [simp]: "same_fields s s"
  by (simp add: same_fields_def)

lemma same_fields_trans: "same_fields s s' \<Longrightarrow> same_fields s' s'' \<Longrightarrow> same_fields s s''"
  by (simp add: same_fields_def)

lemma same_fields_store:
  assumes "deref s p = Some e" "key e' = key e" "hash e' = hash e" "data e' = data e"
  shows "same_fields s (store s p e')"
  using assms deref_Some_live [OF assms(1)]
  by (auto simp: same_fields_def payload_def deref_store)

lemma same_fields_set_bucket: "same_fields s (set_bucket s i b)"
  by (simp add: same_fields_def payload_def)

lemma ptrs_store [simp]: "ptrs (store s p e) = ptrs s"
  by (simp add: ptrs_def)

lemma walk_unfold:
  assumes "pc < shift_of s" "bucket_at s pos = Some (Some current)"
    "deref s current = Some ce" "deref s E = Some ee" "deref s rich = Some re"
    "c_str (key ce) \<noteq> c_str (key ee)"
  shows "hash_table_insert_walk s E rich pos pc =
     (if hash_table_should_replace_entry re ce
      then hash_table_insert_walk
             (store (set_bucket s pos (Some rich)) current
                (ce\<lparr>dist_from_des := dist_from_des ce + 1\<rparr>)) E current (Suc pos) (Suc pc)
      else hash_table_insert_walk
             (store s rich (re\<lparr>dist_from_des := dist_from_des re + 1\<rparr>)) E rich
             (Suc pos) (Suc pc))"
  using assms
  by (subst hash_table_insert_walk.simps) (simp add: shift_of_def Let_def)

lemma walk_stop:
  assumes "\<not> pc < shift_of s \<or> bucket_at s pos = Some None
     \<or> (\<exists>current ce ee. bucket_at s pos = Some (Some current) \<and> deref s current = Some ce
           \<and> deref s E = Some ee \<and> c_str (key ce) = c_str (key ee))"
  shows "hash_table_insert_walk s E rich pos pc = Some (s, rich, pos, pc)"
  using assms
  by (subst hash_table_insert_walk.simps) (auto simp: shift_of_def)

lemma walk_inv_in_bounds:
  assumes J: "walk_inv s E rich pos pc" and pc: "pc < shift_of s"
  shows "pos < length (buckets s)"
proof -
  obtain ee re where d: "deref s E = Some ee" "deref s rich = Some re"
    using J by (auto simp: walk_inv_def)
  note c = carried_okD [OF walk_inv_carried [OF J d]]
  note sh = table_shapeD [OF walk_tableD(1) [OF walk_inv_table [OF J]]]
  have "home_index s ee < 2 ^ shift_of s"
    using sh by (intro home_index_less) simp_all
  then show ?thesis using c(3) pc sh(4) by simp
qed

lemma ptrs_swap:
  assumes T: "walk_table s rich pos" and posl: "pos < length (buckets s)"
    "buckets s ! pos = Some current"
  shows "insert current (ptrs (set_bucket s pos (Some rich))) = insert rich (ptrs s)"
proof -
  have a: "p \<in> insert rich (ptrs s)" if "p \<in> ptrs (set_bucket s pos (Some rich))" for p
    using that posl(1) by (auto simp: ptrs_def set_bucket_def nth_update_cases split: if_splits)
  have b: "p \<in> insert current (ptrs (set_bucket s pos (Some rich)))" if mem: "p \<in> ptrs s" for p
  proof -
    obtain i where i: "i < length (buckets s)" "buckets s ! i = Some p"
      using mem by (auto simp: ptrs_def)
    show ?thesis
    proof (cases "i = pos")
      case True
      then show ?thesis using i posl by simp
    next
      case False
      then have "(buckets s)[pos := Some rich] ! i = Some p" using i by simp
      then show ?thesis using i(1) by (auto simp: ptrs_def set_bucket_def)
    qed
  qed
  have c: "rich \<in> ptrs (set_bucket s pos (Some rich))"
    using posl(1) by (auto simp: ptrs_def set_bucket_def intro: exI [of _ pos])
  have d: "current \<in> ptrs s" using posl by (auto simp: ptrs_def)
  show ?thesis using a b c d by auto
qed

lemma walk_total:
  assumes "walk_inv s E rich pos pc"
  shows "\<exists>s' rich' pos' pc'.
           hash_table_insert_walk s E rich pos pc = Some (s', rich', pos', pc')
           \<and> walk_inv s' E rich' pos' pc' \<and> walk_stopped s' E pos' pc'
           \<and> same_fields s s' \<and> insert rich' (ptrs s') = insert rich (ptrs s)"
  using assms
proof (induction "shift_of s - pc" arbitrary: s rich pos pc)
  case 0
  then have "pc = shift_of s" by (simp add: walk_inv_def)
  then show ?case
    using 0 walk_stop [of pc s pos E rich] by (simp add: walk_stopped_def)
next
  case (Suc n)
  note J = Suc.prems
  have pc: "pc < shift_of s" using Suc.hyps(2) by simp
  note T = walk_inv_table [OF J]
  note t = walk_tableD [OF T]
  have posl: "pos < length (buckets s)" using J pc by (rule walk_inv_in_bounds)
  obtain ee re where d: "deref s E = Some ee" "deref s rich = Some re"
    using J by (auto simp: walk_inv_def)
  show ?case
  proof (cases "buckets s ! pos")
    case None
    then have b: "bucket_at s pos = Some None" using posl by (simp add: bucket_at_def)
    then show ?thesis
      using J pc walk_stop [of pc s pos E rich] by (simp add: walk_stopped_def)
  next
    case (Some current)
    then have b: "bucket_at s pos = Some (Some current)" using posl by (simp add: bucket_at_def)
    obtain ce where ce: "deref s current = Some ce"
      using t(2) [OF posl Some] by blast
    show ?thesis
    proof (cases "c_str (key ce) = c_str (key ee)")
      case True
      then show ?thesis
        using J pc b ce d walk_stop [of pc s pos E rich]
        by (auto simp: walk_stopped_def)
    next
      case neq: False
      show ?thesis
      proof (cases "hash_table_should_replace_entry re ce")
        case True
        define s1 where "s1 = store (set_bucket s pos (Some rich)) current
                     (ce\<lparr>dist_from_des := dist_from_des ce + 1\<rparr>)"
        have J1: "walk_inv s1 E current (Suc pos) (Suc pc)"
          unfolding s1_def using J pc b ce d(2) d(1) neq True by (rule walk_step_swap)
        have m: "n = shift_of s1 - Suc pc" using Suc.hyps(2) by (simp add: s1_def)
        have w: "hash_table_insert_walk s E rich pos pc =
                 hash_table_insert_walk s1 E current (Suc pos) (Suc pc)"
          using walk_unfold [OF pc b ce d neq] True by (simp add: s1_def)
        have f: "same_fields s s1"
          unfolding s1_def
          by (rule same_fields_trans [OF same_fields_set_bucket same_fields_store])
             (use ce in simp_all)
        have p: "insert current (ptrs s1) = insert rich (ptrs s)"
          unfolding s1_def using ptrs_swap [OF T posl Some] by simp
        from Suc.hyps(1) [OF m J1] show ?thesis
          unfolding w using f p by (auto intro: same_fields_trans)
      next
        case False
        define s1 where "s1 = store s rich (re\<lparr>dist_from_des := dist_from_des re + 1\<rparr>)"
        have J1: "walk_inv s1 E rich (Suc pos) (Suc pc)"
          unfolding s1_def using J pc b ce d(2) d(1) neq False by (rule walk_step_keep)
        have m: "n = shift_of s1 - Suc pc" using Suc.hyps(2) by (simp add: s1_def)
        have w: "hash_table_insert_walk s E rich pos pc =
                 hash_table_insert_walk s1 E rich (Suc pos) (Suc pc)"
          using walk_unfold [OF pc b ce d neq] False by (simp add: s1_def)
        have f: "same_fields s s1"
          unfolding s1_def by (rule same_fields_store [OF d(2)]) simp_all
        have p: "ptrs s1 = ptrs s" by (simp add: s1_def)
        from Suc.hyps(1) [OF m J1] show ?thesis
          unfolding w using f p by (auto intro: same_fields_trans)
      qed
    qed
  qed
qed

lemma table_inv_walk_table:
  assumes inv: "table_inv s" and "rich \<notin> ptrs s"
  shows "walk_table s rich pos"
  using assms unfolding table_inv_def walk_table_def table_shape_def ptrs_def
  by auto

lemma walk_inv_init:
  assumes inv: "table_inv s" and ee: "deref s E = Some ee" and new: "E \<notin> ptrs s"
    and d0: "dist_from_des ee = 0" and h: "hash ee = djb2_hash (key ee)"
  shows "walk_inv s E E (home_index s ee) 0"
proof -
  have T: "walk_table s E (home_index s ee)"
    using inv new by (rule table_inv_walk_table)
  have c5: "home_index s ee < length (buckets s) \<longrightarrow> 0 < home_index s ee \<longrightarrow>
      disp1 s (home_index s ee) \<le> Suc (disp1 s (home_index s ee - 1))"
  proof (intro impI)
    assume a: "home_index s ee < length (buckets s)" "0 < home_index s ee"
    then have "Suc (home_index s ee - 1) < length (buckets s)" by simp
    from table_inv_step [OF inv this] a(2) show
      "disp1 s (home_index s ee) \<le> Suc (disp1 s (home_index s ee - 1))" by simp
  qed
  have c6: "\<forall>i e. slot s i = Some e \<and> c_str (key e) = c_str (key ee) \<longrightarrow>
      E = E \<and> home_index s ee \<le> i"
  proof (intro allI impI)
    fix i e assume a: "slot s i = Some e \<and> c_str (key e) = c_str (key ee)"
    then have si: "sits s i e" using table_inv_slot_sits [OF inv] by blast
    then have "home_index s e = home_index s ee"
      using a h by (intro same_key_same_home) (simp_all add: sits_def)
    then show "E = E \<and> home_index s ee \<le> i" using si by (auto simp: sits_def)
  qed
  have "carried_ok s E E (home_index s ee) 0 ee ee"
    unfolding carried_ok_def using h d0 c5 c6 by simp
  then show ?thesis using T ee by (auto simp: walk_inv_def)
qed

lemma card_occupied_le: "card (occupied s) \<le> length (buckets s)"
proof -
  have "occupied s \<subseteq> {..<length (buckets s)}" by (auto simp: occupied_def)
  then have "card (occupied s) \<le> card {..<length (buckets s)}"
    by (intro card_mono) simp_all
  then show ?thesis by simp
qed

lemma size_t_Suc:
  fixes c :: size_t
  assumes "unat c < 2 ^ 62"
  shows "unat (c + 1) = Suc (unat c)"
  using assms by (simp add: unat_word_ariths)

lemma shape_length_bound:
  assumes "table_shape s"
  shows "length (buckets s) < 2 ^ 61"
proof -
  note sh = table_shapeD [OF assms]
  have "(2::nat) ^ shift_of s \<le> 2 ^ 60" using sh(2) by (intro power_increasing) simp_all
  then show ?thesis using sh(2,4) by simp
qed

lemma walk_place_empty:
  assumes J: "walk_inv s E rich pos pc" and pc: "pc < shift_of s"
    and b: "bucket_at s pos = Some None"
  shows "table_inv (set_bucket (s\<lparr>curr_size := curr_size s + 1\<rparr>) pos (Some rich))"
proof -
  define s' where "s' = set_bucket (s\<lparr>curr_size := curr_size s + 1\<rparr>) pos (Some rich)"
  obtain ee re where d: "deref s E = Some ee" "deref s rich = Some re"
    using J by (auto simp: walk_inv_def)
  note T = walk_inv_table [OF J]
  note t = walk_tableD [OF T]
  note c = carried_okD [OF walk_inv_carried [OF J d]]
  note sh = table_shapeD [OF t(1)]
  have posl: "pos < length (buckets s)" "buckets s ! pos = None"
    using b by (simp_all add: bucket_at_Some_iff)
  have st [simp]: "buckets s' = (buckets s)[pos := Some rich]" "shift_of s' = shift_of s"
    "curr_size s' = curr_size s + 1" "max_size s' = max_size s"
    "\<And>i e. sits s' i e = sits s i e" "\<And>p. deref s' p = deref s p"
    by (simp_all add: s'_def set_bucket_def shift_of_def sits_def home_index_def deref_def)
  have slot0: "slot s pos = None" using posl by (simp add: slot_def bucket_at_def)
  have d0: "disp1 s pos = 0" using slot0 by (simp add: disp1_def)
  have slot': "slot s' i = (if i = pos then Some re else slot s i)" for i
    using posl(1) d(2) by (auto simp: slot_def bucket_at_def nth_update_cases split: option.splits)
  have disp': "disp1 s' i = (if i = pos then Suc (unat (dist_from_des re)) else disp1 s i)" for i
    by (simp add: disp1_def slot')
  have occ: "occupied s' = insert pos (occupied s)" "pos \<notin> occupied s"
    using posl by (auto simp: occupied_def nth_update_cases)
  have a1: "HASH_TABLE_INITIAL_SHIFT \<le> shift_of s'" "shift_of s' \<le> 60"
    "unat (max_size s') = 2 ^ shift_of s'"
    "length (buckets s') = 2 ^ shift_of s' + shift_of s'"
    using sh by (simp_all add: HASH_TABLE_INITIAL_SHIFT_def)
  have a2: "\<forall>i p. i < length (buckets s') \<and> buckets s' ! i = Some p \<longrightarrow>
            (\<exists>e. deref s' p = Some e \<and> sits s' i e)"
  proof (intro allI impI)
    fix i p assume a: "i < length (buckets s') \<and> buckets s' ! i = Some p"
    show "\<exists>e. deref s' p = Some e \<and> sits s' i e"
    proof (cases "i = pos")
      case True
      then have "p = rich" using a by auto
      moreover have "sits s pos re" using c(2,4,5) pc by (simp add: sits_def)
      ultimately show ?thesis using True d(2) by simp
    next
      case False
      then show ?thesis using t(2) [of i p] a by simp
    qed
  qed
  have a3: "\<forall>i. Suc i < length (buckets s') \<longrightarrow> disp1 s' (Suc i) \<le> Suc (disp1 s' i)"
  proof (intro allI impI)
    fix i assume i: "Suc i < length (buckets s')"
    show "disp1 s' (Suc i) \<le> Suc (disp1 s' i)"
    proof (cases "Suc i = pos")
      case True
      then have "unat (dist_from_des re) \<le> disp1 s i" using c(6) by auto
      then show ?thesis using True by (simp add: disp')
    next
      case False
      then have "disp1 s (Suc i) \<le> Suc (disp1 s i)" using t(4) [of i] i by simp
      then show ?thesis using False d0 by (auto simp: disp')
    qed
  qed
  have a4: "\<forall>i j e e'. slot s' i = Some e \<and> slot s' j = Some e'
            \<and> c_str (key e) = c_str (key e') \<longrightarrow> i = j"
  proof -
    have clash: False
      if j: "slot s j = Some e'" "c_str (key e') = c_str (key re)" for j e'
    proof -
      have rE: "rich = E" "pos \<le> j" using c(8) [OF j] by simp_all
      have jl: "j < length (buckets s)" using j(1) by (auto simp: slot_Some_iff)
      obtain p where "buckets s ! j = Some p" "deref s p = Some e'"
        using j(1) by (auto simp: slot_Some_iff)
      then have sj: "sits s j e'" using t(2) [OF jl] by auto
      have "home_index s e' = home_index s re"
        using sj c(2) j(2) by (intro same_key_same_home) (simp_all add: sits_def)
      then have "home_index s re + unat (dist_from_des e') = j"
        using sj by (simp add: sits_def)
      moreover have "disp1 s j \<le> disp1 s pos + (j - pos)"
        using T _ rE(2) jl by (rule walk_table_chain) simp
      moreover have "disp1 s j = Suc (unat (dist_from_des e'))" using j(1) by (rule disp1_Some)
      ultimately show False using d0 c(4) rE(2) by simp
    qed
    show ?thesis
    proof (intro allI impI)
      fix i j e e'
      assume a: "slot s' i = Some e \<and> slot s' j = Some e' \<and> c_str (key e) = c_str (key e')"
      show "i = j"
      proof (cases "i = pos")
        case ip: True
        show ?thesis
        proof (cases "j = pos")
          case True
          then show ?thesis using ip by simp
        next
          case False
          then show ?thesis using a ip clash [of j e'] by (simp add: slot')
        qed
      next
        case ip: False
        show ?thesis
        proof (cases "j = pos")
          case True
          then show ?thesis using a ip clash [of i e] by (simp add: slot')
        next
          case False
          then show ?thesis using a ip t(3) [of i e j e'] by (simp add: slot')
        qed
      qed
    qed
  qed
  have a5: "unat (curr_size s') = card (occupied s')"
  proof -
    have fin: "finite (occupied s)" by (simp add: occupied_def)
    have "card (occupied s) < 2 ^ 61"
      using card_occupied_le [of s] shape_length_bound [OF t(1)] by simp
    then have "unat (curr_size s) < 2 ^ 62" using t(5) by simp
    then have "unat (curr_size s + 1) = Suc (unat (curr_size s))" by (rule size_t_Suc)
    then show ?thesis using t(5) occ fin by simp
  qed
  show ?thesis
    unfolding table_inv_def s'_def [symmetric] using a1 a2 a3 a4 a5 by blast
qed

lemma ptrs_place_empty:
  assumes "pos < length (buckets s)" "buckets s ! pos = None"
    and "buckets s' = buckets s"
  shows "ptrs (set_bucket s' pos (Some rich)) = insert rich (ptrs s)"
proof -
  have "p \<in> insert rich (ptrs s)" if "p \<in> ptrs (set_bucket s' pos (Some rich))" for p
    using that assms(1) \<open>buckets s' = buckets s\<close>
    by (auto simp: ptrs_def set_bucket_def nth_update_cases split: if_splits)
  moreover have "p \<in> ptrs (set_bucket s' pos (Some rich))" if mem: "p \<in> ptrs s" for p
  proof -
    obtain i where i: "i < length (buckets s)" "buckets s ! i = Some p"
      using mem by (auto simp: ptrs_def)
    then have "i \<noteq> pos" using assms(2) by auto
    then have "(buckets s)[pos := Some rich] ! i = Some p" using i by simp
    then show ?thesis using i(1) \<open>buckets s' = buckets s\<close>
      by (auto simp: ptrs_def set_bucket_def)
  qed
  moreover have "rich \<in> ptrs (set_bucket s' pos (Some rich))"
    using assms(1) \<open>buckets s' = buckets s\<close>
    by (auto simp: ptrs_def set_bucket_def intro: exI [of _ pos])
  ultimately show ?thesis by auto
qed

lemma walk_place_replace:
  assumes J: "walk_inv s E rich pos pc" and pc: "pc < shift_of s"
    and b: "bucket_at s pos = Some (Some current)" and ce: "deref s current = Some ce"
    and ee: "deref s E = Some ee" and same: "c_str (key ce) = c_str (key ee)"
  shows "rich = E"
    and "table_inv (set_bucket (s\<lparr>heap := (heap s)[current := None]\<rparr>) pos (Some rich))"
    and "ptrs (set_bucket (s\<lparr>heap := (heap s)[current := None]\<rparr>) pos (Some rich))
           = insert rich (ptrs s - {current})"
    and "current \<noteq> E"
proof -
  define s' where "s' = set_bucket (s\<lparr>heap := (heap s)[current := None]\<rparr>) pos (Some rich)"
  obtain re where re: "deref s rich = Some re"
    using J by (auto simp: walk_inv_def)
  note T = walk_inv_table [OF J]
  note t = walk_tableD [OF T]
  note c = carried_okD [OF walk_inv_carried [OF J ee re]]
  note sh = table_shapeD [OF t(1)]
  have posl: "pos < length (buckets s)" "buckets s ! pos = Some current"
    using b by (simp_all add: bucket_at_Some_iff)
  have slotc: "slot s pos = Some ce"
    using posl ce by (simp add: slot_Some_iff)
  have sitc: "sits s pos ce" using t(2) [OF posl] ce by auto
  show rE: "rich = E"
  proof (rule ccontr)
    assume "rich \<noteq> E"
    then obtain i where i: "i < pos" "buckets s ! i = Some E" using c(9) by blast
    then have "slot s i = Some ee" using posl(1) ee by (simp add: slot_Some_iff)
    then have "i = pos" using t(3) [OF _ slotc] same by simp
    then show False using i(1) by simp
  qed
  then have ree: "re = ee" using re ee by simp
  have cr: "current \<noteq> rich" using t(6) [OF posl(1)] posl(2) by auto
  then show "current \<noteq> E" using rE by simp
  have live: "current < length (heap s)" using ce by (rule deref_Some_live)
  have st [simp]: "buckets s' = (buckets s)[pos := Some rich]" "shift_of s' = shift_of s"
    "curr_size s' = curr_size s" "max_size s' = max_size s"
    "\<And>i e. sits s' i e = sits s i e"
    by (simp_all add: s'_def set_bucket_def shift_of_def sits_def home_index_def)
  have deref': "deref s' p = (if p = current then None else deref s p)" for p
    using live by (simp add: s'_def deref_def set_bucket_def)
  have other: "buckets s ! i \<noteq> Some current" if "i < length (buckets s)" "i \<noteq> pos" for i
    using walk_table_inj [OF T that(1) posl(1) _ posl(2)] that(2) by auto
  have slot': "slot s' i = (if i = pos then Some re else slot s i)" for i
  proof (cases "i < length (buckets s)")
    case False
    then show ?thesis using posl(1) by (auto simp: slot_def bucket_at_def)
  next
    case True
    show ?thesis
    proof (cases "i = pos")
      case True
      then show ?thesis using posl(1) re cr by (simp add: slot_Some_iff deref')
    next
      case False
      then show ?thesis
        using True other [OF True False]
        by (auto simp: slot_def bucket_at_def deref' split: option.splits)
    qed
  qed
  have "home_index s ce = home_index s re"
    using sitc c(2) same ree by (intro same_key_same_home) (simp_all add: sits_def)
  then have dist: "unat (dist_from_des ce) = unat (dist_from_des re)"
    using sitc c(4) by (simp add: sits_def)
  have disp': "disp1 s' i = disp1 s i" for i
    using slotc dist by (simp add: disp1_def slot')
  have occ: "occupied s' = occupied s"
  proof -
    have "pos \<in> occupied s" using posl by (simp add: occupied_def)
    moreover have "occupied s' = insert pos (occupied s)"
      using posl(1) by (auto simp: occupied_def nth_update_cases)
    ultimately show ?thesis by auto
  qed
  have a1: "HASH_TABLE_INITIAL_SHIFT \<le> shift_of s'" "shift_of s' \<le> 60"
    "unat (max_size s') = 2 ^ shift_of s'"
    "length (buckets s') = 2 ^ shift_of s' + shift_of s'"
    using sh by (simp_all add: HASH_TABLE_INITIAL_SHIFT_def)
  have a2: "\<forall>i p. i < length (buckets s') \<and> buckets s' ! i = Some p \<longrightarrow>
            (\<exists>e. deref s' p = Some e \<and> sits s' i e)"
  proof (intro allI impI)
    fix i p assume a: "i < length (buckets s') \<and> buckets s' ! i = Some p"
    show "\<exists>e. deref s' p = Some e \<and> sits s' i e"
    proof (cases "i = pos")
      case True
      then have "p = rich" using a by auto
      moreover have "sits s pos re" using c(2,4,5) pc by (simp add: sits_def)
      ultimately show ?thesis using True re cr by (simp add: deref')
    next
      case False
      then have b: "i < length (buckets s)" "buckets s ! i = Some p" using a by simp_all
      then have "p \<noteq> current" using other [OF b(1) False] by auto
      then show ?thesis using t(2) [OF b] by (simp add: deref')
    qed
  qed
  have a3: "\<forall>i. Suc i < length (buckets s') \<longrightarrow> disp1 s' (Suc i) \<le> Suc (disp1 s' i)"
  proof (intro allI impI)
    fix i assume i: "Suc i < length (buckets s')"
    show "disp1 s' (Suc i) \<le> Suc (disp1 s' i)"
    proof (cases "Suc i = pos")
      case True
      then show ?thesis using c(10) [OF posl(1) rE] by (auto simp: disp')
    next
      case False
      then show ?thesis using t(4) [of i] i by (simp add: disp')
    qed
  qed
  have a4: "\<forall>i j e e'. slot s' i = Some e \<and> slot s' j = Some e'
            \<and> c_str (key e) = c_str (key e') \<longrightarrow> i = j"
  proof (intro allI impI)
    fix i j e e'
    assume a: "slot s' i = Some e \<and> slot s' j = Some e' \<and> c_str (key e) = c_str (key e')"
    define x where "x = (if i = pos then ce else e)"
    define y where "y = (if j = pos then ce else e')"
    have "slot s i = Some x" "slot s j = Some y"
      using a slotc by (auto simp: x_def y_def slot' split: if_splits)
    moreover have "c_str (key x) = c_str (key y)"
      using a same ree by (auto simp: x_def y_def slot' split: if_splits)
    ultimately show "i = j" using t(3) by blast
  qed
  have a5: "unat (curr_size s') = card (occupied s')"
    using t(5) by (simp add: occ)
  show "table_inv (set_bucket (s\<lparr>heap := (heap s)[current := None]\<rparr>) pos (Some rich))"
    unfolding table_inv_def s'_def [symmetric] using a1 a2 a3 a4 a5 by blast
  show "ptrs (set_bucket (s\<lparr>heap := (heap s)[current := None]\<rparr>) pos (Some rich))
           = insert rich (ptrs s - {current})"
  proof -
    have "p \<in> insert rich (ptrs s - {current})" if mem: "p \<in> ptrs s'" for p
    proof -
      obtain i where i: "i < length (buckets s)" "(buckets s)[pos := Some rich] ! i = Some p"
        using mem by (auto simp: ptrs_def)
      show ?thesis
      proof (cases "i = pos")
        case True
        then show ?thesis using i by simp
      next
        case False
        then have "buckets s ! i = Some p" using i by simp
        moreover from this have "p \<noteq> current" using other [OF i(1) False] by auto
        ultimately show ?thesis using i(1) by (auto simp: ptrs_def)
      qed
    qed
    moreover have "p \<in> ptrs s'" if mem: "p \<in> ptrs s - {current}" for p
    proof -
      obtain i where i: "i < length (buckets s)" "buckets s ! i = Some p" "p \<noteq> current"
        using mem by (auto simp: ptrs_def)
      then have "i \<noteq> pos" using posl by auto
      then have "(buckets s)[pos := Some rich] ! i = Some p" using i by simp
      then show ?thesis using i(1) by (auto simp: ptrs_def)
    qed
    moreover have "rich \<in> ptrs s'"
      using posl(1) by (auto simp: ptrs_def intro: exI [of _ pos])
    ultimately show ?thesis unfolding s'_def [symmetric] by auto
  qed
qed

lemma store_store [simp]: "store (store s p e) p e' = store s p e'"
  by (simp add: store_def)

lemma store_same:
  assumes "deref s p = Some e"
  shows "store s p e = s"
proof -
  have "p < length (heap s)" "heap s ! p = Some e"
    using assms by (auto simp: deref_def split: if_splits)
  then have "(heap s)[p := Some e] = heap s" by (simp add: list_update_same_conv)
  then show ?thesis by (simp add: store_def)
qed

lemma set_bucket_same:
  assumes "i < length (buckets s)" "buckets s ! i = b"
  shows "set_bucket s i b = s"
proof -
  have "(buckets s)[i := b] = buckets s" using assms by (simp add: list_update_same_conv)
  then show ?thesis by (simp add: set_bucket_def)
qed

lemma set_bucket_store_commute:
  "set_bucket (store s p e) i b = store (set_bucket s i b) p e"
  by (simp add: set_bucket_def store_def)

lemma set_bucket_set_bucket [simp]:
  "set_bucket (set_bucket s i b) i b' = set_bucket s i b'"
  by (simp add: set_bucket_def)

lemma dist_inc_dec:
  fixes e :: hash_table_entry
  shows "e\<lparr>dist_from_des := dist_from_des e + 1\<rparr>
          \<lparr>dist_from_des := dist_from_des (e\<lparr>dist_from_des := dist_from_des e + 1\<rparr>) - 1\<rparr> = e"
  by simp

lemma unwind_undo_swap:
  assumes posl: "pos < length (buckets s)" "buckets s ! pos = Some current"
    and ce: "deref s current = Some ce" and re: "deref s rich = Some re"
    and neq: "current \<noteq> rich"
    and gt: "unat (dist_from_des ce) < unat (dist_from_des re)"
  shows "hash_table_unwind_insertion_changes
           (store (set_bucket s pos (Some rich)) current
              (ce\<lparr>dist_from_des := dist_from_des ce + 1\<rparr>)) E current pos
         = (if rich = E \<or> pos = 0 then Some s
            else hash_table_unwind_insertion_changes s E rich (pos - 1))"
proof -
  define ce' where "ce' = ce\<lparr>dist_from_des := dist_from_des ce + 1\<rparr>"
  define s1 where "s1 = store (set_bucket s pos (Some rich)) current ce'"
  have live: "current < length (heap s)" using ce by (rule deref_Some_live)
  have b: "bucket_at s1 pos = Some (Some rich)"
    using posl(1) by (simp add: s1_def bucket_at_set_bucket)
  have d: "deref s1 current = Some ce'"
    using live by (simp add: s1_def deref_store)
  have undo: "ce'\<lparr>dist_from_des := dist_from_des ce' - 1\<rparr> = ce"
    by (simp add: ce'_def)
  define s2 where "s2 = store s1 current ce"
  have s2: "s2 = set_bucket s pos (Some rich)"
    unfolding s2_def s1_def using store_same [of "set_bucket s pos (Some rich)" current ce] ce
    by simp
  have d2: "deref s2 rich = Some re" "deref s2 current = Some ce"
    using re ce by (simp_all add: s2)
  have rep: "hash_table_should_replace_entry re ce"
    using gt by (simp add: hash_table_should_replace_entry_def)
  have fin: "set_bucket s2 pos (Some current) = s"
    unfolding s2 using set_bucket_same [OF posl] by simp
  show ?thesis
    unfolding s1_def [symmetric] ce'_def [symmetric]
    by (subst hash_table_unwind_insertion_changes.simps)
       (simp add: b d undo s2_def [symmetric] d2 rep fin Let_def)
qed

lemma unwind_undo_keep:
  assumes posl: "pos < length (buckets s)" "buckets s ! pos = Some current"
    and ce: "deref s current = Some ce" and re: "deref s rich = Some re"
    and neq: "current \<noteq> rich"
    and eq: "unat (dist_from_des ce) \<le> unat (dist_from_des re)"
  shows "hash_table_unwind_insertion_changes
           (store s rich (re\<lparr>dist_from_des := dist_from_des re + 1\<rparr>)) E rich pos
         = (if rich = E \<or> pos = 0 then Some s
            else hash_table_unwind_insertion_changes s E rich (pos - 1))"
proof -
  define re' where "re' = re\<lparr>dist_from_des := dist_from_des re + 1\<rparr>"
  define s1 where "s1 = store s rich re'"
  have live: "rich < length (heap s)" using re by (rule deref_Some_live)
  have b: "bucket_at s1 pos = Some (Some current)"
    using posl by (simp add: s1_def bucket_at_def)
  have d: "deref s1 rich = Some re'"
    using live by (simp add: s1_def deref_store)
  have undo: "re'\<lparr>dist_from_des := dist_from_des re' - 1\<rparr> = re"
    by (simp add: re'_def)
  have s2: "store s1 rich re = s"
    unfolding s1_def using store_same [OF re] by simp
  have rep: "\<not> hash_table_should_replace_entry ce re"
    using eq by (simp add: hash_table_should_replace_entry_def)
  show ?thesis
    unfolding s1_def [symmetric] re'_def [symmetric]
    by (subst hash_table_unwind_insertion_changes.simps)
       (simp add: b d undo s2 ce re rep Let_def)
qed

lemma walk_current_neq:
  assumes J: "walk_inv s E rich pos pc"
    and posl: "pos < length (buckets s)" "buckets s ! pos = Some current"
  shows "current \<noteq> rich" "current \<noteq> E"
proof -
  obtain ee re where d: "deref s E = Some ee" "deref s rich = Some re"
    using J by (auto simp: walk_inv_def)
  note T = walk_inv_table [OF J]
  note t = walk_tableD [OF T]
  note c = carried_okD [OF walk_inv_carried [OF J d]]
  show cr: "current \<noteq> rich" using t(6) [OF posl(1)] posl(2) by auto
  show "current \<noteq> E"
  proof (cases "rich = E")
    case True
    then show ?thesis using cr by simp
  next
    case False
    then obtain i where i: "i < pos" "buckets s ! i = Some E" using c(9) by blast
    show ?thesis
    proof
      assume "current = E"
      then have "i = pos"
        using walk_table_inj [OF T _ posl(1) i(2)] i(1) posl by simp
      then show False using i(1) by simp
    qed
  qed
qed

lemma walk_unwind:
  assumes "walk_inv s E rich pos pc"
    and "hash_table_insert_walk s E rich pos pc = Some (s_end, rich_end, pos_end, pc_end)"
    and "\<not> pc_end < shift_of s"
    and "deref s E = Some ee"
  shows "(rich \<noteq> E \<longrightarrow>
            hash_table_unwind_insertion_changes s_end E rich_end (pos_end - 1)
            = hash_table_unwind_insertion_changes s E rich (pos - 1))
       \<and> (rich = E \<and> pc < shift_of s \<longrightarrow>
            (\<exists>x. hash_table_unwind_insertion_changes s_end E rich_end (pos_end - 1)
                 = Some (store s E (ee\<lparr>dist_from_des := x\<rparr>))))"
  using assms
proof (induction "shift_of s - pc" arbitrary: s rich pos pc ee)
  case 0
  then have "pc = shift_of s" by (simp add: walk_inv_def)
  then have "hash_table_insert_walk s E rich pos pc = Some (s, rich, pos, pc)"
    by (intro walk_stop) simp
  then show ?case using 0 by simp
next
  case (Suc n)
  note J = Suc.prems(1) and w = Suc.prems(2) and ex = Suc.prems(3) and ee = Suc.prems(4)
  have pc: "pc < shift_of s" using Suc.hyps(2) by simp
  note T = walk_inv_table [OF J]
  note t = walk_tableD [OF T]
  have posl: "pos < length (buckets s)" using J pc by (rule walk_inv_in_bounds)
  obtain re where re: "deref s rich = Some re"
    using J by (auto simp: walk_inv_def)
  note c = carried_okD [OF walk_inv_carried [OF J ee re]]
  have stopped: False if "hash_table_insert_walk s E rich pos pc = Some (s, rich, pos, pc)"
    using that w ex pc by simp
  show ?case
  proof (cases "buckets s ! pos")
    case None
    then have "bucket_at s pos = Some None" using posl by (simp add: bucket_at_def)
    then have "hash_table_insert_walk s E rich pos pc = Some (s, rich, pos, pc)"
      by (intro walk_stop) simp
    then show ?thesis using stopped by simp
  next
    case (Some current)
    then have b: "bucket_at s pos = Some (Some current)" using posl by (simp add: bucket_at_def)
    obtain ce where ce: "deref s current = Some ce" and sitc: "sits s pos ce"
      using t(2) [OF posl Some] by blast
    have slotc: "slot s pos = Some ce" using posl Some ce by (simp add: slot_Some_iff)
    have dc: "disp1 s pos = Suc (unat (dist_from_des ce))" using slotc by (rule disp1_Some)
    note cn = walk_current_neq [OF J posl Some]
    show ?thesis
    proof (cases "c_str (key ce) = c_str (key ee)")
      case True
      then have "hash_table_insert_walk s E rich pos pc = Some (s, rich, pos, pc)"
        using b ce ee by (intro walk_stop) auto
      then show ?thesis using stopped by simp
    next
      case neq: False
      show ?thesis
      proof (cases "hash_table_should_replace_entry re ce")
        case True
        define s1 where "s1 = store (set_bucket s pos (Some rich)) current
                     (ce\<lparr>dist_from_des := dist_from_des ce + 1\<rparr>)"
        have J1: "walk_inv s1 E current (Suc pos) (Suc pc)"
          unfolding s1_def using J pc b ce re ee neq True by (rule walk_step_swap)
        have m: "n = shift_of s1 - Suc pc" using Suc.hyps(2) by (simp add: s1_def)
        have w1: "hash_table_insert_walk s1 E current (Suc pos) (Suc pc)
                  = Some (s_end, rich_end, pos_end, pc_end)"
          using walk_unfold [OF pc b ce ee re neq] True w by (simp add: s1_def)
        have ex1: "\<not> pc_end < shift_of s1" using ex by (simp add: s1_def)
        have ee1: "deref s1 E = Some ee"
          using ee cn(2) deref_Some_live [OF ce] by (simp add: s1_def deref_store)
        have gt: "unat (dist_from_des ce) < unat (dist_from_des re)"
          using True by (simp add: hash_table_should_replace_entry_def)
        have "hash_table_unwind_insertion_changes s_end E rich_end (pos_end - 1)
              = hash_table_unwind_insertion_changes s1 E current (Suc pos - 1)"
          using Suc.hyps(1) [OF m J1 w1 ex1 ee1] cn(2) by simp
        also have "\<dots> = (if rich = E \<or> pos = 0 then Some s
            else hash_table_unwind_insertion_changes s E rich (pos - 1))"
          unfolding s1_def using unwind_undo_swap [OF posl Some ce re cn(1) gt] by simp
        finally have u: "hash_table_unwind_insertion_changes s_end E rich_end (pos_end - 1)
            = (if rich = E \<or> pos = 0 then Some s
               else hash_table_unwind_insertion_changes s E rich (pos - 1))" .
        have "pos \<noteq> 0" if "rich \<noteq> E" using c(9) [OF that] by auto
        moreover have "s = store s E (ee\<lparr>dist_from_des := dist_from_des ee\<rparr>)"
          using store_same [OF ee] by simp
        ultimately show ?thesis using u by (metis (full_types))
      next
        case False
        define s1 where "s1 = store s rich (re\<lparr>dist_from_des := dist_from_des re + 1\<rparr>)"
        have J1: "walk_inv s1 E rich (Suc pos) (Suc pc)"
          unfolding s1_def using J pc b ce re ee neq False by (rule walk_step_keep)
        have m: "n = shift_of s1 - Suc pc" using Suc.hyps(2) by (simp add: s1_def)
        have w1: "hash_table_insert_walk s1 E rich (Suc pos) (Suc pc)
                  = Some (s_end, rich_end, pos_end, pc_end)"
          using walk_unfold [OF pc b ce ee re neq] False w by (simp add: s1_def)
        have ex1: "\<not> pc_end < shift_of s1" using ex by (simp add: s1_def)
        have le: "unat (dist_from_des re) \<le> unat (dist_from_des ce)"
          using False by (simp add: hash_table_should_replace_entry_def)
        show ?thesis
        proof (cases "rich = E")
          case rE: False
          have ee1: "deref s1 E = Some ee"
            using ee rE deref_Some_live [OF re] by (simp add: s1_def deref_store)
          have ge: "unat (dist_from_des ce) \<le> unat (dist_from_des re)"
            using c(7) [OF posl rE] dc by simp
          have "hash_table_unwind_insertion_changes s_end E rich_end (pos_end - 1)
              = hash_table_unwind_insertion_changes s1 E rich (Suc pos - 1)"
            using Suc.hyps(1) [OF m J1 w1 ex1 ee1] rE by simp
          also have "\<dots> = (if rich = E \<or> pos = 0 then Some s
              else hash_table_unwind_insertion_changes s E rich (pos - 1))"
            unfolding s1_def using unwind_undo_keep [OF posl Some ce re cn(1) ge] by simp
          finally show ?thesis using rE c(9) [OF rE] by auto
        next
          case rE: True
          then have ree: "re = ee" using re ee by simp
          have ee1: "deref s1 E = Some (ee\<lparr>dist_from_des := dist_from_des ee + 1\<rparr>)"
            using rE ree deref_Some_live [OF re] by (simp add: s1_def deref_store)
          show ?thesis
          proof (cases "Suc pc < shift_of s")
            case True
            then have "Suc pc < shift_of s1" by (simp add: s1_def)
            then obtain x where
              "hash_table_unwind_insertion_changes s_end E rich_end (pos_end - 1)
                 = Some (store s1 E (ee\<lparr>dist_from_des := dist_from_des ee + 1\<rparr>
                                       \<lparr>dist_from_des := x\<rparr>))"
              using Suc.hyps(1) [OF m J1 w1 ex1 ee1] rE by auto
            then show ?thesis using rE by (auto simp: s1_def)
          next
            case False
            then have last: "Suc pc = shift_of s" using pc by simp
            then have "hash_table_insert_walk s1 E rich (Suc pos) (Suc pc)
                = Some (s1, rich, Suc pos, Suc pc)"
              by (intro walk_stop) (simp add: s1_def)
            then have fin: "s_end = s1" "rich_end = rich" "pos_end = Suc pos"
              using w1 by simp_all
            have "unat (dist_from_des re) = pc" using c(3,4) ree by simp
            moreover have "unat (dist_from_des ce) < shift_of s"
              using sitc by (simp add: sits_def)
            ultimately have ge: "unat (dist_from_des ce) \<le> unat (dist_from_des re)"
              using last by simp
            have "hash_table_unwind_insertion_changes s1 E rich pos = Some s"
              unfolding s1_def using unwind_undo_keep [OF posl Some ce re cn(1) ge] rE by simp
            moreover have "s = store s E (ee\<lparr>dist_from_des := dist_from_des ee\<rparr>)"
              using store_same [OF ee] by simp
            ultimately show ?thesis using fin rE by (metis diff_Suc_1)
          qed
        qed
      qed
    qed
  qed
qed

lemma key_of_payload: "payload s' p = payload s p \<Longrightarrow> key_of s' p = key_of s p"
  by (cases "deref s p"; cases "deref s' p") (auto simp: payload_def key_of_def)

lemma payload_store:
  assumes "deref s p = Some e" "key e' = key e" "hash e' = hash e" "data e' = data e"
  shows "payload (store s p e') q = payload s q"
  using assms deref_Some_live [OF assms(1)] by (auto simp: payload_def deref_store)

lemma slot_ptrs:
  "slot s i = Some e \<Longrightarrow> \<exists>p \<in> ptrs s. deref s p = Some e"
  by (auto simp: slot_Some_iff ptrs_def)

lemma table_inv_store_other:
  assumes inv: "table_inv s" and "p \<notin> ptrs s"
  shows "table_inv (store s p e)"
proof -
  have notin: "\<forall>i. i < length (buckets s) \<longrightarrow> buckets s ! i \<noteq> Some p"
    using assms(2) by (auto simp: ptrs_def)
  have sl: "slot (store s p e) i = slot s i" for i using notin by (rule slot_store_other)
  have dl: "disp1 (store s p e) i = disp1 s i" for i using notin by (rule disp1_store_other)
  have de: "deref (store s p e) q = deref s q" if "\<exists>i < length (buckets s). buckets s ! i = Some q" for q
    using that notin by (auto simp: deref_store)
  have "\<forall>i q. i < length (buckets s) \<and> buckets s ! i = Some q \<longrightarrow>
       (\<exists>e'. deref (store s p e) q = Some e' \<and> sits s i e')"
    using inv de unfolding table_inv_def by (metis (no_types, lifting))
  then show ?thesis
    using inv unfolding table_inv_def by (simp add: sl dl)
qed

lemma table_inv_inj:
  assumes inv: "table_inv s"
    and "i < length (buckets s)" "j < length (buckets s)"
    and "buckets s ! i = Some p" "buckets s ! j = Some p"
  shows "i = j"
proof -
  obtain e where "deref s p = Some e"
    using table_inv_sits [OF inv assms(2,4)] by blast
  then have "slot s i = Some e" "slot s j = Some e"
    using assms(2-5) by (simp_all add: slot_Some_iff)
  then show ?thesis using table_inv_keys [OF inv] by blast
qed

lemma table_inv_key_inj:
  assumes inv: "table_inv s" and "p \<in> ptrs s" "q \<in> ptrs s" "key_of s p = key_of s q"
  shows "p = q"
proof -
  obtain i j where i: "i < length (buckets s)" "buckets s ! i = Some p"
    and j: "j < length (buckets s)" "buckets s ! j = Some q"
    using assms(2,3) by (auto simp: ptrs_def)
  obtain e e' where e: "deref s p = Some e" "deref s q = Some e'"
    using table_inv_sits [OF inv i] table_inv_sits [OF inv j] by blast
  then have "slot s i = Some e" "slot s j = Some e'"
    using i j by (simp_all add: slot_Some_iff)
  moreover have "c_str (key e) = c_str (key e')"
    using assms(4) e by (simp add: key_of_def)
  ultimately have "i = j" using table_inv_keys [OF inv] by blast
  then show ?thesis using i j by simp
qed

lemma table_inv_ptr_live:
  assumes inv: "table_inv s" and "p \<in> ptrs s"
  obtains e where "deref s p = Some e" "hash e = djb2_hash (key e)"
proof -
  obtain i where i: "i < length (buckets s)" "buckets s ! i = Some p"
    using assms(2) by (auto simp: ptrs_def)
  then obtain e where "deref s p = Some e" "sits s i e"
    using table_inv_sits [OF inv i] by blast
  then show ?thesis using that by (simp add: sits_def)
qed

lemma pending_step:
  assumes "i < length old"
  shows "pending old bound i =
     (case old ! i of None \<Rightarrow> {} | Some E \<Rightarrow> if i < bound then {E} else {})
       \<union> pending old bound (Suc i)"
proof -
  have "p \<in> (case old ! i of None \<Rightarrow> {} | Some E \<Rightarrow> if i < bound then {E} else {})
       \<union> pending old bound (Suc i)" if mem: "p \<in> pending old bound i" for p
  proof -
    obtain j where j: "i \<le> j" "j < bound" "j < length old" "old ! j = Some p"
      using mem unfolding pending_def by blast
    show ?thesis
    proof (cases "j = i")
      case True
      then show ?thesis using j by simp
    next
      case False
      then have "Suc i \<le> j" using j(1) by simp
      then have "p \<in> pending old bound (Suc i)" using j unfolding pending_def by blast
      then show ?thesis by simp
    qed
  qed
  moreover have "p \<in> pending old bound i"
    if mem: "p \<in> (case old ! i of None \<Rightarrow> {} | Some E \<Rightarrow> if i < bound then {E} else {})
       \<union> pending old bound (Suc i)" for p
  proof (cases "p \<in> pending old bound (Suc i)")
    case True
    then obtain j where "Suc i \<le> j" "j < bound" "j < length old" "old ! j = Some p"
      unfolding pending_def by blast
    then have "i \<le> j \<and> j < bound \<and> j < length old \<and> old ! j = Some p" by simp
    then show ?thesis unfolding pending_def by blast
  next
    case False
    then have "old ! i = Some p" "i < bound"
      using mem by (auto split: option.splits if_splits)
    then have "i \<le> i \<and> i < bound \<and> i < length old \<and> old ! i = Some p"
      using assms by simp
    then show ?thesis unfolding pending_def by blast
  qed
  ultimately show ?thesis by blast
qed

lemma pending_None:
  assumes "i < length old" "old ! i = None"
  shows "pending old bound i = pending old bound (Suc i)"
  using pending_step [OF assms(1), of bound] assms(2) by simp

lemma pending_Some:
  assumes "i < bound" "i < length old" "old ! i = Some E"
  shows "pending old bound i = insert E (pending old bound (Suc i))"
  using pending_step [OF assms(2), of bound] assms(1,3) by simp

lemma payload_eq_live:
  assumes "payload s' p = payload s p" "deref s p = Some e"
  obtains e' where "deref s' p = Some e'" "key e' = key e" "hash e' = hash e" "data e' = data e"
  using assms by (cases "deref s' p") (auto simp: payload_def)

lemma rehash_ok:
  assumes ins: "ins_ok ins m"
    and inj_old: "\<forall>j j'. j < length old \<and> j' < length old \<and> old ! j = old ! j'
                   \<and> old ! j \<noteq> None \<longrightarrow> j = j'"
    and bound: "bound \<le> length old"
  shows "table_inv s \<Longrightarrow> length (allocs s) < m \<Longrightarrow> pending old bound i \<inter> ptrs s = {} \<Longrightarrow>
     (\<forall>p \<in> pending old bound i. \<exists>e. deref s p = Some e \<and> hash e = djb2_hash (key e)) \<Longrightarrow>
     inj_on (key_of s) (pending old bound i \<union> ptrs s) \<Longrightarrow>
     \<exists>s'. hash_table_rehash_with ins s old bound i = Some s'
          \<and> rehash_post s (pending old bound i) s'"
proof (induction "bound - i" arbitrary: s i)
  case 0
  then have "\<not> i < bound" by simp
  then have "hash_table_rehash_with ins s old bound i = Some s"
    by (subst hash_table_rehash_with.simps) simp
  moreover have "pending old bound i = {}"
    using \<open>\<not> i < bound\<close> by (auto simp: pending_def)
  ultimately show ?case using 0 by (simp add: rehash_post_def)
next
  case (Suc n)
  note inv = Suc.prems(1) and al = Suc.prems(2) and disj = Suc.prems(3)
    and live = Suc.prems(4) and kinj = Suc.prems(5)
  have i: "i < bound" "i < length old" using Suc.hyps(2) bound by simp_all
  have n: "n = bound - Suc i" using Suc.hyps(2) by simp
  show ?case
  proof (cases "old ! i")
    case None
    have pe: "pending old bound i = pending old bound (Suc i)"
      using i(2) None by (rule pending_None)
    have "hash_table_rehash_with ins s old bound i
          = hash_table_rehash_with ins s old bound (Suc i)"
      using i None by (subst hash_table_rehash_with.simps) simp
    then show ?thesis
      using Suc.hyps(1) [OF n inv al] disj live kinj unfolding pe by simp
  next
    case (Some E)
    have pe: "pending old bound i = insert E (pending old bound (Suc i))"
      using i Some by (rule pending_Some)
    have Enot: "E \<notin> pending old bound (Suc i)"
    proof
      assume "E \<in> pending old bound (Suc i)"
      then obtain j where j: "Suc i \<le> j" "j < length old" "old ! j = Some E"
        by (auto simp: pending_def)
      then have "j = i" using inj_old i(2) Some by (metis option.distinct(1))
      then show False using j(1) by simp
    qed
    have Ep: "E \<notin> ptrs s" using disj pe by auto
    obtain e where e: "deref s E = Some e" "hash e = djb2_hash (key e)"
      using live pe by auto
    define s0 where "s0 = store s E (e\<lparr>dist_from_des := 0\<rparr>)"
    have inv0: "table_inv s0" unfolding s0_def using inv Ep by (rule table_inv_store_other)
    have p0: "payload s0 p = payload s p" for p
      unfolding s0_def by (rule payload_store [OF e(1)]) simp_all
    have k0: "key_of s0 p = key_of s p" for p using p0 by (rule key_of_payload)
    have f0: "ptrs s0 = ptrs s" "allocs s0 = allocs s" "refused s0 = refused s"
      "length (heap s0) = length (heap s)"
      by (simp_all add: s0_def)
    have "deref s0 E = Some (e\<lparr>dist_from_des := 0\<rparr>)"
      using deref_Some_live [OF e(1)] by (simp add: s0_def deref_store)
    then have new: "new_entry s0 E"
      using e(2) Ep by (simp add: new_entry_def f0)
    obtain ok s1 where r: "ins s0 E = Some (ok, s1)" and post: "ins_post s0 E ok s1"
      using ins inv0 new al unfolding ins_ok_def f0 [symmetric] by blast
    have inv1: "table_inv s1" using post by (simp add: ins_post_def)
    have p1: "payload s1 p = payload s p" for p
    proof -
      have "payload s1 p = payload s0 p
            \<or> (payload s1 p = None \<and> p \<in> ptrs s0 \<and> key_of s0 p = key_of s0 E)"
        using post unfolding ins_post_def by blast
      moreover have False if "p \<in> ptrs s0" "key_of s0 p = key_of s0 E"
      proof -
        have "p \<in> pending old bound i \<union> ptrs s" "E \<in> pending old bound i \<union> ptrs s"
          using that(1) pe by (simp_all add: f0)
        moreover have "key_of s p = key_of s E" using that(2) by (simp add: k0)
        ultimately have "p = E" using kinj by (meson inj_onD)
        then show False using that(1) Ep by (simp add: f0)
      qed
      ultimately show ?thesis using p0 by auto
    qed
    have k1: "key_of s1 p = key_of s p" for p using p1 by (rule key_of_payload)
    have sub1: "ptrs s1 \<subseteq> insert E (ptrs s)"
      using post by (simp add: ins_post_def f0)
    have al1: "length (allocs s1) < m"
      using post al by (simp add: ins_post_def f0)
    have disj1: "pending old bound (Suc i) \<inter> ptrs s1 = {}"
      using sub1 disj pe Enot by auto
    have live1: "\<forall>p \<in> pending old bound (Suc i).
        \<exists>e. deref s1 p = Some e \<and> hash e = djb2_hash (key e)"
    proof
      fix p assume "p \<in> pending old bound (Suc i)"
      then obtain x where x: "deref s p = Some x" "hash x = djb2_hash (key x)"
        using live pe by auto
      from payload_eq_live [OF p1 x(1)] obtain x' where
        "deref s1 p = Some x'" "key x' = key x" "hash x' = hash x" by metis
      then show "\<exists>e. deref s1 p = Some e \<and> hash e = djb2_hash (key e)"
        using x(2) by simp
    qed
    have kinj1: "inj_on (key_of s1) (pending old bound (Suc i) \<union> ptrs s1)"
    proof -
      have "pending old bound (Suc i) \<union> ptrs s1 \<subseteq> pending old bound i \<union> ptrs s"
        using sub1 pe by auto
      then have "inj_on (key_of s) (pending old bound (Suc i) \<union> ptrs s1)"
        using kinj by (rule inj_on_subset [rotated])
      then show ?thesis by (simp add: inj_on_def k1)
    qed
    obtain s' where r2: "hash_table_rehash_with ins s1 old bound (Suc i) = Some s'"
      and post2: "rehash_post s1 (pending old bound (Suc i)) s'"
      using Suc.hyps(1) [OF n inv1 al1 disj1 live1 kinj1] by blast
    have run: "hash_table_rehash_with ins s old bound i = Some s'"
      using i Some e(1) r r2
      by (subst hash_table_rehash_with.simps) (simp add: s0_def)
    have q1: "table_inv s'" "length (heap s') = length (heap s)"
      "\<forall>p. payload s' p = payload s p"
      "length (allocs s') \<le> length (allocs s)" "refused s \<le> refused s'"
      using post post2 p1 by (simp_all add: rehash_post_def ins_post_def f0)
    have q2: "ptrs s' \<subseteq> ptrs s \<union> pending old bound i"
      using post2 sub1 pe by (auto simp: rehash_post_def)
    have q3: "ptrs s' = ptrs s \<union> pending old bound i" if same: "refused s' = refused s"
    proof -
      have r01: "refused s0 \<le> refused s1" "refused s1 \<le> refused s'"
        using post post2 by (simp_all add: ins_post_def rehash_post_def)
      then have eq: "refused s1 = refused s0" "refused s' = refused s1"
        using same by (simp_all add: f0)
      have "ptrs s1 = insert E {p \<in> ptrs s0. key_of s0 p \<noteq> key_of s0 E}"
        using post eq(1) by (simp add: ins_post_def)
      moreover have "key_of s0 p \<noteq> key_of s0 E" if "p \<in> ptrs s0" for p
      proof
        assume a: "key_of s0 p = key_of s0 E"
        have "p \<in> pending old bound i \<union> ptrs s" "E \<in> pending old bound i \<union> ptrs s"
          using that pe by (simp_all add: f0)
        moreover have "key_of s p = key_of s E" using a by (simp add: k0)
        ultimately have "p = E" using kinj by (meson inj_onD)
        then show False using that Ep by (simp add: f0)
      qed
      ultimately have "ptrs s1 = insert E (ptrs s)" by (auto simp: f0)
      moreover have "ptrs s' = ptrs s1 \<union> pending old bound (Suc i)"
        using post2 eq(2) by (simp add: rehash_post_def)
      ultimately show ?thesis using pe by auto
    qed
    show ?thesis
      using run q1 q2 q3 unfolding rehash_post_def by blast
  qed
qed

lemma unat_ucast_shift: "unat (ucast (sh :: uint8_t) :: size_t) = unat sh"
proof -
  have "unat sh < 2 ^ 8" using unsigned_less [of sh] by simp
  then have "unat sh < 2 ^ 64" by simp
  then show ?thesis by (simp add: unsigned_ucast_eq take_bit_nat_eq_self)
qed

lemma unat_size_plus_shift:
  fixes m :: size_t and sh :: uint8_t
  assumes "unat m = 2 ^ k" "unat sh = k" "k \<le> 61"
  shows "unat (m + ucast sh) = 2 ^ k + k"
proof -
  have u: "unat (ucast sh :: size_t) = k"
    using assms(2) by (simp add: unat_ucast_shift)
  have "(2::nat) ^ k \<le> 2 ^ 61" using assms(3) by (intro power_increasing) simp_all
  then have "2 ^ k + k < (2::nat) ^ 64" using assms(3) by simp
  then show ?thesis using assms(1) u by (simp add: unat_word_ariths)
qed

lemma table_shape_bound:
  assumes "table_shape s"
  shows "unat (max_size s + ucast (max_size_shift s)) = length (buckets s)"
proof -
  note sh = table_shapeD [OF assms]
  have "unat (max_size_shift s) = shift_of s" by (simp add: shift_of_def)
  moreover have "shift_of s \<le> 61" using sh(2) by simp
  ultimately have "unat (max_size s + ucast (max_size_shift s)) = 2 ^ shift_of s + shift_of s"
    using sh(3) by (intro unat_size_plus_shift)
  then show ?thesis using sh(4) by simp
qed

lemma unat_shift_inc:
  fixes sh :: uint8_t
  assumes "unat sh \<le> 60"
  shows "unat (sh + word_of_int 1) = unat sh + 1"
  using assms by (simp add: unat_word_ariths)

lemma unat_shift_dec:
  fixes sh :: uint8_t
  assumes "0 < unat sh"
  shows "unat (sh + word_of_int (- 1)) = unat sh - 1"
  using assms by (simp add: unat_minus_one unat_gt_0)

lemma unat_size_double:
  fixes m :: size_t
  assumes "unat m = 2 ^ k" "k \<le> 60"
  shows "unat (push_bit (nat 1) m) = 2 ^ (k + 1)"
proof -
  have "(2::nat) ^ k \<le> 2 ^ 60" using assms(2) by (intro power_increasing) simp_all
  then have "2 * 2 ^ k < (2::nat) ^ 64" by simp
  then show ?thesis using assms(1) by (simp add: push_bit_eq_mult unat_word_ariths)
qed

lemma unat_size_half:
  fixes m :: size_t
  assumes "unat m = 2 ^ k" "0 < k"
  shows "unat (drop_bit (nat (- (- 1))) m) = 2 ^ (k - 1)"
proof -
  obtain j where j: "k = Suc j" using assms(2) by (cases k) simp_all
  have "unat (drop_bit (Suc 0) m) = drop_bit (Suc 0) (unat m)" by (rule unat_drop_bit_eq)
  also have "\<dots> = unat m div 2 ^ Suc 0" by (rule drop_bit_eq_div)
  finally show ?thesis using assms(1) j by simp
qed

lemma table_inv_fields_only:
  assumes "table_inv s"
  shows "table_inv (s\<lparr>allocs := a, refused := r\<rparr>)"
proof -
  define s' where "s' = s\<lparr>allocs := a, refused := r\<rparr>"
  have [simp]: "deref s' = deref s"
    by (rule ext) (simp add: s'_def deref_def)
  have [simp]: "buckets s' = buckets s" "shift_of s' = shift_of s" "max_size s' = max_size s"
    "curr_size s' = curr_size s" "occupied s' = occupied s"
    "\<And>i e. sits s' i e = sits s i e"
    by (simp_all add: s'_def shift_of_def occupied_def sits_def home_index_def)
  have [simp]: "slot s' i = slot s i" for i
    by (simp add: slot_def bucket_at_def split: option.splits)
  have [simp]: "disp1 s' i = disp1 s i" for i
    by (simp add: disp1_def)
  show ?thesis using assms unfolding table_inv_def s'_def [symmetric] by simp
qed

lemma table_inv_fresh:
  assumes k: "4 \<le> unat (max_size_shift s)" "unat (max_size_shift s) \<le> 60"
    and m: "unat (max_size s) = 2 ^ unat (max_size_shift s)"
    and b: "buckets s = replicate (2 ^ unat (max_size_shift s) + unat (max_size_shift s)) None"
    and c: "curr_size s = 0"
  shows "table_inv s" "ptrs s = {}"
proof -
  have sl: "slot s i = None" for i
    using b by (auto simp: slot_def bucket_at_def split: option.splits)
  have "occupied s = {}" using b by (auto simp: occupied_def)
  then show "table_inv s"
    using k m b c unfolding table_inv_def
    by (auto simp: shift_of_def HASH_TABLE_INITIAL_SHIFT_def sl disp1_def)
  show "ptrs s = {}" using b by (auto simp: ptrs_def)
qed

lemma alloc_request_cases:
  obtains (refused) "alloc_request s b = (False, s\<lparr>allocs := tl (allocs s), refused := Suc (refused s)\<rparr>)"
  | (granted) bs where "allocs s = True # bs" "b < 2 ^ 64" "alloc_request s b = (True, s\<lparr>allocs := bs\<rparr>)"
proof (cases "allocs s")
  case Nil
  then have "alloc_request s b = (False, s\<lparr>allocs := tl (allocs s), refused := Suc (refused s)\<rparr>)"
    by (simp add: alloc_request_def)
  then show ?thesis by (rule refused)
next
  case (Cons a bs)
  show ?thesis
  proof (cases "a \<and> b < 2 ^ 64")
    case True
    then show ?thesis using Cons granted [of bs] by (simp add: alloc_request_def)
  next
    case False
    then have "alloc_request s b = (False, s\<lparr>allocs := tl (allocs s), refused := Suc (refused s)\<rparr>)"
      using Cons by (auto simp: alloc_request_def)
    then show ?thesis by (rule refused)
  qed
qed

lemma pending_all: "pending (buckets s) (length (buckets s)) 0 = ptrs s"
  by (auto simp: pending_def ptrs_def)

lemma payload_heap_eq: "heap s' = heap s \<Longrightarrow> payload s' p = payload s p"
  by (simp add: payload_def deref_def)

lemma resize_ok:
  assumes ins: "ins_ok ins m" and inv: "table_inv s" and al: "length (allocs s) \<le> m"
    and amt: "amt = 1 \<or> (amt = - 1 \<and> 4 < shift_of s)"
  shows "\<exists>ok s'. hash_table_resize_with ins s amt = Some (ok, s') \<and> resize_post s ok s'"
proof -
  define k where "k = shift_of s"
  define sh' where "sh' = max_size_shift s + word_of_int amt"
  define ms' where "ms' = (if amt \<ge> 0 then push_bit (nat amt) (max_size s)
                           else drop_bit (nat (- amt)) (max_size s))"
  define s1 where "s1 = s\<lparr>max_size_shift := sh', max_size := ms'\<rparr>"
  define k' where "k' = (if amt = 1 then k + 1 else k - 1)"
  define n where "n = unat (max_size s1 + ucast (max_size_shift s1))"
  note d = table_invD [OF inv]
  have kk: "unat (max_size_shift s) = k" by (simp add: k_def shift_of_def)
  have k4: "4 \<le> k" "k \<le> 60" using d(1,2) by (simp_all add: k_def)
  have k'4: "4 \<le> k'" using amt k4 by (auto simp: k'_def k_def)
  have sh: "unat sh' = k'"
    using amt unat_shift_inc [of "max_size_shift s"] unat_shift_dec [of "max_size_shift s"] kk k4
    by (auto simp: sh'_def k'_def)
  have ms: "unat ms' = 2 ^ k'"
    using amt unat_size_double [of "max_size s" k] unat_size_half [of "max_size s" k] d(3) k4
    by (auto simp: ms'_def k'_def k_def)
  have n: "n = 2 ^ k' + k'"
    unfolding n_def s1_def using ms sh k4 amt
    by (intro unat_size_plus_shift) (auto simp: k'_def)
  have range: "- 64 < amt \<and> amt < 64" using amt by auto
  have run: "hash_table_resize_with ins s amt =
      (case alloc_request s1 (8 * n) of (granted, s2) \<Rightarrow>
         if granted then
           (case hash_table_rehash_with ins
                   (s2\<lparr>buckets := replicate n None, curr_size := 0\<rparr>) (buckets s2)
                   (unat (max_size s + ucast (max_size_shift s))) 0 of
              None \<Rightarrow> None | Some s3 \<Rightarrow> Some (True, s3))
         else Some (False, s2\<lparr>max_size := max_size s, max_size_shift := max_size_shift s\<rparr>))"
    using range
    by (simp add: hash_table_resize_with_def hash_table_buckets_alloc_def Let_def
          s1_def [symmetric] sh'_def [symmetric] ms'_def [symmetric] n_def [symmetric]
          split: prod.splits)
  show ?thesis
  proof (cases rule: alloc_request_cases [of s1 "8 * n"])
    case refused
    define s' where "s' = s\<lparr>allocs := tl (allocs s), refused := Suc (refused s)\<rparr>"
    have r: "hash_table_resize_with ins s amt = Some (False, s')"
      unfolding run refused by (simp add: s1_def s'_def)
    have "table_inv s'" unfolding s'_def using inv by (rule table_inv_fields_only)
    moreover have "ptrs s' = ptrs s" "length (heap s') = length (heap s)"
      "refused s' = Suc (refused s)"
      "length (allocs s') \<le> length (allocs s)"
      by (simp_all add: s'_def ptrs_def)
    moreover have "\<forall>p. payload s' p = payload s p"
      by (simp add: s'_def payload_def deref_def)
    ultimately have "resize_post s False s'"
      unfolding resize_post_def by (simp add: s'_def)
    then show ?thesis using r by blast
  next
    case (granted bs)
    define s3 where "s3 = s1\<lparr>allocs := bs, buckets := replicate n None, curr_size := 0\<rparr>"
    have bs: "allocs s = True # bs" using granted(1) by (simp add: s1_def)
    have k'60: "k' \<le> 60"
    proof (rule ccontr)
      assume "\<not> k' \<le> 60"
      then have "(2::nat) ^ 61 \<le> 2 ^ k'" by (intro power_increasing) simp_all
      then show False using granted(2) n by simp
    qed
    have f3: "unat (max_size_shift s3) = k'" "unat (max_size s3) = 2 ^ k'"
      "buckets s3 = replicate (2 ^ k' + k') None" "curr_size s3 = 0"
      "heap s3 = heap s" "allocs s3 = bs" "refused s3 = refused s"
      using sh ms n by (simp_all add: s3_def s1_def)
    have inv3: "table_inv s3" and p3: "ptrs s3 = {}"
      using table_inv_fresh [of s3] f3 k'4 k'60 by simp_all
    have pay3: "payload s3 p = payload s p" for p
      using f3(5) by (rule payload_heap_eq)
    have key3: "key_of s3 p = key_of s p" for p using pay3 by (rule key_of_payload)
    have der3: "deref s3 p = deref s p" for p using f3(5) by (simp add: deref_def)
    have bound: "unat (max_size s + ucast (max_size_shift s)) = length (buckets s)"
      using table_inv_shape [OF inv] by (rule table_shape_bound)
    have inj_old: "\<forall>j j'. j < length (buckets s) \<and> j' < length (buckets s)
          \<and> buckets s ! j = buckets s ! j' \<and> buckets s ! j \<noteq> None \<longrightarrow> j = j'"
      using table_inv_inj [OF inv] by (metis option.exhaust)
    have a1: "length (allocs s3) < m" using al bs f3(6) by simp
    have a2: "pending (buckets s) (length (buckets s)) 0 \<inter> ptrs s3 = {}" using p3 by simp
    have a3: "\<forall>p \<in> pending (buckets s) (length (buckets s)) 0.
        \<exists>e. deref s3 p = Some e \<and> hash e = djb2_hash (key e)"
      unfolding pending_all der3 using table_inv_ptr_live [OF inv] by metis
    have a4: "inj_on (key_of s3) (pending (buckets s) (length (buckets s)) 0 \<union> ptrs s3)"
      unfolding pending_all p3 using table_inv_key_inj [OF inv]
      by (auto simp: inj_on_def key3)
    obtain s4 where r4: "hash_table_rehash_with ins s3 (buckets s) (length (buckets s)) 0 = Some s4"
      and post: "rehash_post s3 (ptrs s) s4"
      using rehash_ok [OF ins inj_old order_refl inv3 a1 a2 a3 a4] unfolding pending_all
      by blast
    have r: "hash_table_resize_with ins s amt = Some (True, s4)"
      unfolding run granted(3) bound using r4 by (simp add: s3_def s1_def)
    have "resize_post s True s4"
      using post unfolding resize_post_def rehash_post_def
      by (simp add: f3 p3 pay3 bs)
    then show ?thesis using r by blast
  qed
qed

lemma same_fields_payload: "same_fields s s' \<Longrightarrow> payload s' p = payload s p"
  by (simp add: same_fields_def)

lemma same_fields_shift: "same_fields s s' \<Longrightarrow> shift_of s' = shift_of s"
  by (simp add: same_fields_def shift_of_def)

lemma new_entry_home:
  assumes inv: "table_inv s" and ee: "deref s E = Some ee"
  obtains w where "fibonacci_hash (hash ee) (unat (max_size_shift s)) = Some w"
    "unat w = home_index s ee"
proof -
  have sh: "0 < shift_of s" "shift_of s \<le> 64"
    using table_invD(1,2) [OF inv] by simp_all
  then obtain w where w: "fibonacci_hash (hash ee) (shift_of s) = Some w"
    by (auto simp: fibonacci_hash_def)
  then have "unat w = home_index s ee" by (simp add: home_index_def)
  then show ?thesis using w that by (simp add: shift_of_def)
qed

lemma insert_fuel_Suc:
  assumes "deref s E = Some ee"
    "fibonacci_hash (hash ee) (unat (max_size_shift s)) = Some w"
    "hash_table_insert_walk s E E (unat w) 0 = Some (s1, rich, pos, pc)"
  shows "hash_table_insert_fuel (Suc n) s E =
     (if hash_table_is_next_found s1 pc then
        (case bucket_at s1 pos of
           None \<Rightarrow> None
         | Some b \<Rightarrow>
             (case (case b of
                      Some current \<Rightarrow> hash_table_entry_free s1 current
                    | None \<Rightarrow> Some (s1\<lparr>curr_size := curr_size s1 + 1\<rparr>)) of
                None \<Rightarrow> None
              | Some s2 \<Rightarrow> Some (True, set_bucket s2 pos (Some rich))))
      else
        (case hash_table_unwind_insertion_changes s1 E rich
                (unat (word_of_nat pos - 1 :: size_t)) of
           None \<Rightarrow> None
         | Some s2 \<Rightarrow>
             (case hash_table_resize_with (hash_table_insert_fuel n) s2 1 of
                None \<Rightarrow> None
              | Some (ok, s3) \<Rightarrow>
                  if \<not> ok then Some (False, s3)
                  else (case deref s3 E of
                          None \<Rightarrow> None
                        | Some e3 \<Rightarrow>
                            hash_table_insert_fuel n
                              (store s3 E (e3\<lparr>dist_from_des := 0\<rparr>)) E))))"
  using assms by (simp add: hash_table_insert_fuel.simps split: option.splits prod.splits)

lemma insert_found:
  assumes inv: "table_inv s" and ee: "deref s E = Some ee" and new: "E \<notin> ptrs s"
    and w: "fibonacci_hash (hash ee) (unat (max_size_shift s)) = Some w"
    and walk: "hash_table_insert_walk s E E (unat w) 0 = Some (s1, rich, pos, pc)"
    and J1: "walk_inv s1 E rich pos pc" and stop: "walk_stopped s1 E pos pc"
    and sf: "same_fields s s1" and pt: "insert rich (ptrs s1) = insert E (ptrs s)"
    and pc: "pc < shift_of s1"
  shows "\<exists>s'. hash_table_insert_fuel (Suc n) s E = Some (True, s') \<and> ins_post s E True s'"
proof -
  note T1 = walk_inv_table [OF J1]
  have found: "hash_table_is_next_found s1 pc"
    using pc by (simp add: hash_table_is_next_found_def shift_of_def)
  have pay1: "payload s1 p = payload s p" for p using sf by (rule same_fields_payload)
  have key1: "key_of s1 p = key_of s p" for p using pay1 by (rule key_of_payload)
  have f1: "length (heap s1) = length (heap s)" "allocs s1 = allocs s" "refused s1 = refused s"
    using sf by (simp_all add: same_fields_def)
  have rn: "rich \<notin> ptrs s1" using walk_tableD(6) [OF T1] by (auto simp: ptrs_def)
  from stop pc consider
    (empty) "bucket_at s1 pos = Some None"
    | (same) current ce ee1 where "bucket_at s1 pos = Some (Some current)"
        "deref s1 current = Some ce" "deref s1 E = Some ee1" "c_str (key ce) = c_str (key ee1)"
    unfolding walk_stopped_def by auto
  then show ?thesis
  proof cases
    case empty
    define s' where "s' = set_bucket (s1\<lparr>curr_size := curr_size s1 + 1\<rparr>) pos (Some rich)"
    have run: "hash_table_insert_fuel (Suc n) s E = Some (True, s')"
      unfolding insert_fuel_Suc [OF ee w walk] using found empty by (simp add: s'_def)
    have inv': "table_inv s'" unfolding s'_def using J1 pc empty by (rule walk_place_empty)
    have posl: "pos < length (buckets s1)" "buckets s1 ! pos = None"
      using empty by (simp_all add: bucket_at_Some_iff)
    have "ptrs s' = insert rich (ptrs s1)"
      unfolding s'_def by (rule ptrs_place_empty [OF posl]) simp
    then have pt': "ptrs s' = insert E (ptrs s)" using pt by simp
    have der': "deref s' p = deref s1 p" for p
      by (simp add: s'_def deref_def set_bucket_def)
    have pay': "payload s' p = payload s p" for p
      using pay1 [of p] by (simp add: payload_def der')
    have key': "key_of s' p = key_of s p" for p using pay' by (rule key_of_payload)
    have f': "length (heap s') = length (heap s)" "allocs s' = allocs s" "refused s' = refused s"
      using f1 by (simp_all add: s'_def set_bucket_def)
    have nokey: "key_of s p \<noteq> key_of s E" if "p \<in> ptrs s" for p
    proof
      assume "key_of s p = key_of s E"
      then have "key_of s' p = key_of s' E" by (simp add: key')
      moreover have "p \<in> ptrs s'" "E \<in> ptrs s'" using that pt' by simp_all
      ultimately have "p = E" using table_inv_key_inj [OF inv'] by blast
      then show False using that new by simp
    qed
    have "ins_post s E True s'"
      unfolding ins_post_def using inv' pt' pay' f' nokey by auto
    then show ?thesis using run by blast
  next
    case same
    define s' where "s' = set_bucket (s1\<lparr>heap := (heap s1)[current := None]\<rparr>) pos (Some rich)"
    note r = walk_place_replace [OF J1 pc same(1,2,3,4)]
    have fr: "hash_table_entry_free s1 current = Some (s1\<lparr>heap := (heap s1)[current := None]\<rparr>)"
      using same(2) by (simp add: hash_table_entry_free_def)
    have run: "hash_table_insert_fuel (Suc n) s E = Some (True, s')"
      unfolding insert_fuel_Suc [OF ee w walk] using found same(1) fr by (simp add: s'_def)
    have inv': "table_inv s'" unfolding s'_def by (rule r(2))
    have p1: "ptrs s1 = ptrs s" using pt rn new r(1) by auto
    have pt': "ptrs s' = insert E (ptrs s - {current})"
      unfolding s'_def using r(3) r(1) p1 by simp
    have live: "current < length (heap s1)" using same(2) by (rule deref_Some_live)
    have der': "deref s' p = (if p = current then None else deref s1 p)" for p
      using live by (simp add: s'_def deref_def set_bucket_def)
    have pay': "payload s' p = (if p = current then None else payload s p)" for p
      using pay1 [of p] by (simp add: payload_def der')
    have f': "length (heap s') = length (heap s)" "allocs s' = allocs s" "refused s' = refused s"
      using f1 by (simp_all add: s'_def set_bucket_def)
    have cur: "current \<in> ptrs s"
      using same(1) p1 by (auto simp: ptrs_def bucket_at_Some_iff)
    have "key_of s1 current = key_of s1 E"
      using same(2,3,4) by (simp add: key_of_def)
    then have kc: "key_of s current = key_of s E" by (simp add: key1)
    have only: "p = current" if "p \<in> ptrs s" "key_of s p = key_of s E" for p
      using table_inv_key_inj [OF inv that(1) cur] that(2) kc by simp
    have a: "\<forall>p. payload s' p = payload s p
            \<or> (payload s' p = None \<and> p \<in> ptrs s \<and> key_of s p = key_of s E)"
      using pay' cur kc by auto
    have b: "ptrs s' = insert E {p \<in> ptrs s. key_of s p \<noteq> key_of s E}"
      unfolding pt' using only kc by auto
    have c: "payload s' E = payload s E" using pay' r(4) by auto
    have "ins_post s E True s'"
      unfolding ins_post_def using inv' a b c f' pt' by auto
    then show ?thesis using run by blast
  qed
qed

lemma unat_position_pred:
  assumes "0 < p" "p < 2 ^ 64"
  shows "unat (word_of_nat p - 1 :: size_t) = p - 1"
proof -
  have "unat (word_of_nat p :: size_t) = p"
    using assms(2) by (simp add: unat_of_nat)
  moreover from this have "(word_of_nat p :: size_t) \<noteq> 0" using assms(1) by auto
  ultimately show ?thesis by (simp add: unat_minus_one)
qed

lemma insert_overflow:
  assumes ih: "ins_ok (hash_table_insert_fuel n) n"
    and inv: "table_inv s" and ee: "deref s E = Some ee" and new: "E \<notin> ptrs s"
    and d0: "dist_from_des ee = 0" and h: "hash ee = djb2_hash (key ee)"
    and al: "length (allocs s) \<le> n"
    and w: "fibonacci_hash (hash ee) (unat (max_size_shift s)) = Some w"
    and hw: "unat w = home_index s ee"
    and walk: "hash_table_insert_walk s E E (unat w) 0 = Some (s1, rich, pos, pc)"
    and J1: "walk_inv s1 E rich pos pc"
    and sf: "same_fields s s1"
    and pc: "pc = shift_of s1"
  shows "\<exists>ok s'. hash_table_insert_fuel (Suc n) s E = Some (ok, s') \<and> ins_post s E ok s'"
proof -
  have sh1: "shift_of s1 = shift_of s" using sf by (rule same_fields_shift)
  note d = table_invD [OF inv]
  have notfound: "\<not> hash_table_is_next_found s1 pc"
    using pc by (simp add: hash_table_is_next_found_def shift_of_def)
  have J0: "walk_inv s E E (home_index s ee) 0"
    using inv ee new d0 h by (rule walk_inv_init)
  have ex: "\<not> pc < shift_of s" using pc sh1 by simp
  have "0 < shift_of s" using d(1) by simp
  then obtain x where u: "hash_table_unwind_insertion_changes s1 E rich (pos - 1)
      = Some (store s E (ee\<lparr>dist_from_des := x\<rparr>))"
    using walk_unwind [OF J0 walk [unfolded hw] ex ee] by auto
  obtain ee1 re1 where d1: "deref s1 E = Some ee1" "deref s1 rich = Some re1"
    using J1 by (auto simp: walk_inv_def)
  note c1 = carried_okD [OF walk_inv_carried [OF J1 d1]]
  have posv: "0 < pos" "pos < 2 ^ 64"
  proof -
    show "0 < pos" using c1(3) pc sh1 d(1) by simp
    have "home_index s1 ee1 < 2 ^ shift_of s1"
      using d(1,2) sh1 by (intro home_index_less) simp_all
    moreover have "(2::nat) ^ shift_of s1 \<le> 2 ^ 60"
      using d(2) sh1 by (intro power_increasing) simp_all
    ultimately show "pos < 2 ^ 64" using c1(3) pc d(2) sh1 by simp
  qed
  define s2 where "s2 = store s E (ee\<lparr>dist_from_des := x\<rparr>)"
  have u': "hash_table_unwind_insertion_changes s1 E rich
              (unat (word_of_nat pos - 1 :: size_t)) = Some s2"
    using u unat_position_pred [OF posv] by (simp add: s2_def)
  have inv2: "table_inv s2" unfolding s2_def using inv new by (rule table_inv_store_other)
  have pay2: "payload s2 p = payload s p" for p
    unfolding s2_def by (rule payload_store [OF ee]) simp_all
  have f2: "ptrs s2 = ptrs s" "allocs s2 = allocs s" "refused s2 = refused s"
    "length (heap s2) = length (heap s)"
    by (simp_all add: s2_def)
  have al2: "length (allocs s2) \<le> n" using al f2 by simp
  obtain ok s3 where r3: "hash_table_resize_with (hash_table_insert_fuel n) s2 1 = Some (ok, s3)"
    and post3: "resize_post s2 ok s3"
    using resize_ok [OF ih inv2 al2, of 1] by auto
  have q3: "table_inv s3" "length (heap s3) = length (heap s)"
    "\<And>p. payload s3 p = payload s p" "ptrs s3 \<subseteq> ptrs s" "refused s \<le> refused s3"
    "length (allocs s3) \<le> length (allocs s)"
    using post3 by (simp_all add: resize_post_def f2 pay2)
  have run: "hash_table_insert_fuel (Suc n) s E =
      (if \<not> ok then Some (False, s3)
       else (case deref s3 E of None \<Rightarrow> None
             | Some e3 \<Rightarrow> hash_table_insert_fuel n (store s3 E (e3\<lparr>dist_from_des := 0\<rparr>)) E))"
    unfolding insert_fuel_Suc [OF ee w walk] using notfound u' r3 by simp
  show ?thesis
  proof (cases ok)
    case False
    have "refused s3 \<noteq> refused s" using post3 False by (auto simp: resize_post_def f2)
    moreover have "E \<notin> ptrs s3" using q3(4) new by auto
    ultimately have "ins_post s E False s3"
      unfolding ins_post_def using q3 by auto
    then show ?thesis using run False by auto
  next
    case True
    obtain e3 where e3: "deref s3 E = Some e3" "key e3 = key ee" "hash e3 = hash ee"
      using payload_eq_live [OF q3(3) ee] by metis
    define s4 where "s4 = store s3 E (e3\<lparr>dist_from_des := 0\<rparr>)"
    have E3: "E \<notin> ptrs s3" using q3(4) new by auto
    have inv4: "table_inv s4" unfolding s4_def using q3(1) E3 by (rule table_inv_store_other)
    have pay4: "payload s4 p = payload s p" for p
      unfolding s4_def using payload_store [OF e3(1), of "e3\<lparr>dist_from_des := 0\<rparr>" p] q3(3)
      by simp
    have key4: "key_of s4 p = key_of s p" for p using pay4 by (rule key_of_payload)
    have f4: "ptrs s4 = ptrs s3" "allocs s4 = allocs s3" "refused s4 = refused s3"
      "length (heap s4) = length (heap s)"
      using q3(2) by (simp_all add: s4_def)
    have "deref s4 E = Some (e3\<lparr>dist_from_des := 0\<rparr>)"
      using deref_Some_live [OF e3(1)] by (simp add: s4_def deref_store)
    then have new4: "new_entry s4 E"
      using e3 h E3 by (simp add: new_entry_def f4)
    have "length (allocs s3) < length (allocs s2)"
      using post3 True by (simp add: resize_post_def)
    then have al4: "length (allocs s4) < n" using al f2 f4 by simp
    obtain ok' s5 where r5: "hash_table_insert_fuel n s4 E = Some (ok', s5)"
      and post5: "ins_post s4 E ok' s5"
      using ih inv4 new4 al4 unfolding ins_ok_def by blast
    have "ins_post s E ok' s5"
    proof -
      have a: "table_inv s5" "length (heap s5) = length (heap s)"
        "length (allocs s5) \<le> length (allocs s)" "refused s \<le> refused s5"
        "payload s5 E = payload s E" "ok' \<longleftrightarrow> E \<in> ptrs s5"
        using post5 q3 f4 pay4 by (simp_all add: ins_post_def)
      have b: "\<forall>p. payload s5 p = payload s p
            \<or> (payload s5 p = None \<and> p \<in> ptrs s \<and> key_of s p = key_of s E)"
        using post5 q3(4) unfolding ins_post_def pay4 key4 f4 by blast
      have c: "ptrs s5 \<subseteq> insert E (ptrs s)"
        using post5 q3(4) unfolding ins_post_def f4 by blast
      have e: "ok' \<and> ptrs s5 = insert E {p \<in> ptrs s. key_of s p \<noteq> key_of s E}"
        if same: "refused s5 = refused s"
      proof -
        have "refused s4 \<le> refused s5" using post5 by (simp add: ins_post_def)
        then have eq: "refused s3 = refused s2" "refused s5 = refused s4"
          using same q3(5) by (simp_all add: f4 f2)
        have "ptrs s3 = ptrs s" using post3 eq(1) by (simp add: resize_post_def f2)
        moreover have "ok' \<and> ptrs s5 = insert E {p \<in> ptrs s4. key_of s4 p \<noteq> key_of s4 E}"
          using post5 eq(2) by (simp add: ins_post_def)
        ultimately show ?thesis by (simp add: f4 key4)
      qed
      show ?thesis unfolding ins_post_def using a b c e by blast
    qed
    then show ?thesis using run True e3(1) r5 by (simp add: s4_def)
  qed
qed

lemma insert_fuel_ok: "ins_ok (hash_table_insert_fuel n) n"
proof (induction n)
  case 0
  show ?case by (simp add: ins_ok_def)
next
  case (Suc n)
  show ?case
    unfolding ins_ok_def
  proof (intro allI impI)
    fix s E
    assume a: "table_inv s \<and> new_entry s E \<and> length (allocs s) < Suc n"
    then have inv: "table_inv s" and al: "length (allocs s) \<le> n" by simp_all
    from a obtain ee where ee: "deref s E = Some ee" "dist_from_des ee = 0"
      "hash ee = djb2_hash (key ee)" and new: "E \<notin> ptrs s"
      by (auto simp: new_entry_def)
    obtain w where w: "fibonacci_hash (hash ee) (unat (max_size_shift s)) = Some w"
      "unat w = home_index s ee"
      using new_entry_home [OF inv ee(1)] by blast
    have J0: "walk_inv s E E (unat w) 0"
      unfolding w(2) using inv ee(1) new ee(2,3) by (rule walk_inv_init)
    obtain s1 rich pos pc where
      walk: "hash_table_insert_walk s E E (unat w) 0 = Some (s1, rich, pos, pc)"
      and J1: "walk_inv s1 E rich pos pc" and stop: "walk_stopped s1 E pos pc"
      and sf: "same_fields s s1" and pt: "insert rich (ptrs s1) = insert E (ptrs s)"
      using walk_total [OF J0] by blast
    show "\<exists>ok s'. hash_table_insert_fuel (Suc n) s E = Some (ok, s') \<and> ins_post s E ok s'"
    proof (cases "pc < shift_of s1")
      case True
      then show ?thesis
        using insert_found [OF inv ee(1) new w(1) walk J1 stop sf pt] by blast
    next
      case False
      then have "pc = shift_of s1" using J1 by (simp add: walk_inv_def)
      then show ?thesis
        using insert_overflow [OF Suc.IH inv ee(1) new ee(2,3) al w walk J1 sf] by blast
    qed
  qed
qed

lemma hole_invD:
  assumes "hole_inv t hole"
  shows "table_shape t" "hole < length (buckets t)" "buckets t ! hole = None"
    "\<And>i p. i < length (buckets t) \<Longrightarrow> buckets t ! i = Some p \<Longrightarrow>
        \<exists>e. deref t p = Some e \<and> sits t i e"
    "\<And>i j e e'. slot t i = Some e \<Longrightarrow> slot t j = Some e' \<Longrightarrow>
        c_str (key e) = c_str (key e') \<Longrightarrow> i = j"
    "\<And>i. Suc i < length (buckets t) \<Longrightarrow> Suc i \<noteq> hole \<Longrightarrow> i \<noteq> hole \<Longrightarrow>
        disp1 t (Suc i) \<le> Suc (disp1 t i)"
    "Suc hole < length (buckets t) \<Longrightarrow>
        disp1 t (Suc hole) \<le> (if hole = 0 then 0 else disp1 t (hole - 1)) + 2"
    "unat (curr_size t) = Suc (card (occupied t))"
  using assms unfolding hole_inv_def by blast+

lemma size_t_pred:
  fixes c :: size_t
  assumes "unat c = Suc n"
  shows "unat (c - 1) = n"
proof -
  have "c \<noteq> 0" using assms by auto
  then show ?thesis using assms by (simp add: unat_minus_one)
qed

lemma hole_inv_stop:
  assumes H: "hole_inv t hole"
    and stop: "Suc hole < length (buckets t) \<longrightarrow> disp1 t (Suc hole) \<le> 1"
  shows "table_inv (t\<lparr>curr_size := curr_size t - 1\<rparr>)"
proof -
  define t' where "t' = t\<lparr>curr_size := curr_size t - 1\<rparr>"
  note h = hole_invD [OF H]
  note sh = table_shapeD [OF h(1)]
  have [simp]: "deref t' = deref t" by (rule ext) (simp add: t'_def deref_def)
  have [simp]: "buckets t' = buckets t" "shift_of t' = shift_of t" "max_size t' = max_size t"
    "occupied t' = occupied t" "\<And>i e. sits t' i e = sits t i e"
    by (simp_all add: t'_def shift_of_def occupied_def sits_def home_index_def)
  have [simp]: "slot t' i = slot t i" for i
    by (simp add: slot_def bucket_at_def split: option.splits)
  have [simp]: "disp1 t' i = disp1 t i" for i by (simp add: disp1_def)
  have h0: "disp1 t hole = 0"
    using h(2,3) by (simp add: disp1_def slot_def bucket_at_def)
  have chain: "\<forall>i. Suc i < length (buckets t) \<longrightarrow> disp1 t (Suc i) \<le> Suc (disp1 t i)"
  proof (intro allI impI)
    fix i assume i: "Suc i < length (buckets t)"
    show "disp1 t (Suc i) \<le> Suc (disp1 t i)"
    proof (cases "Suc i = hole")
      case True
      then show ?thesis using h0 by simp
    next
      case False
      show ?thesis
      proof (cases "i = hole")
        case True
        then show ?thesis using stop i by simp
      next
        case False
        then show ?thesis using h(6) [OF i] \<open>Suc i \<noteq> hole\<close> by simp
      qed
    qed
  qed
  have "curr_size t' = curr_size t - 1" by (simp add: t'_def)
  then have "unat (curr_size t') = card (occupied t')"
    using size_t_pred [OF h(8)] by simp
  then show ?thesis
    unfolding table_inv_def t'_def [symmetric]
    using sh h(4) h(5) chain by (auto simp: HASH_TABLE_INITIAL_SHIFT_def)
qed

lemma hole_inv_inj:
  assumes H: "hole_inv t hole"
    and "i < length (buckets t)" "j < length (buckets t)"
    and "buckets t ! i = Some p" "buckets t ! j = Some p"
  shows "i = j"
proof -
  note h = hole_invD [OF H]
  obtain e where "deref t p = Some e" using h(4) [OF assms(2,4)] by blast
  then have "slot t i = Some e" "slot t j = Some e"
    using assms(2-5) by (simp_all add: slot_Some_iff)
  then show ?thesis using h(5) by blast
qed

lemma hole_inv_shift:
  assumes H: "hole_inv t hole" and l: "Suc hole < length (buckets t)"
    and b: "buckets t ! Suc hole = Some entry" and e: "deref t entry = Some e"
    and nz: "dist_from_des e \<noteq> 0"
    and t3: "t3 = set_bucket (set_bucket
               (store t entry (e\<lparr>dist_from_des := dist_from_des e - 1\<rparr>))
               hole (Some entry)) (Suc hole) None"
  shows "hole_inv t3 (Suc hole)" "ptrs t3 = ptrs t" "\<forall>p. payload t3 p = payload t p"
    "length (heap t3) = length (heap t)" "allocs t3 = allocs t" "refused t3 = refused t"
    "length (buckets t3) = length (buckets t)"
proof -
  define e' where "e' = e\<lparr>dist_from_des := dist_from_des e - 1\<rparr>"
  note h = hole_invD [OF H]
  have dpos: "0 < unat (dist_from_des e)" using nz by (simp add: unat_gt_0)
  have de': "unat (dist_from_des e') = unat (dist_from_des e) - 1"
    using unat_dist_pred [OF dpos] by (simp add: e'_def)
  have ke': "key e' = key e" "hash e' = hash e" "data e' = data e" by (simp_all add: e'_def)
  have live: "entry < length (heap t)" using e by (rule deref_Some_live)
  have hl: "hole < length (buckets t)" using l by simp
  have st [simp]: "buckets t3 = (buckets t)[hole := Some entry, Suc hole := None]"
    "shift_of t3 = shift_of t" "curr_size t3 = curr_size t" "max_size t3 = max_size t"
    "table_shape t3 = table_shape t" "\<And>i x. sits t3 i x = sits t i x"
    by (simp_all add: t3 set_bucket_def store_def shift_of_def table_shape_def sits_def
          home_index_def)
  have deref': "deref t3 p = (if p = entry then Some e' else deref t p)" for p
    using live by (simp add: t3 deref_store e'_def)
  have other: "buckets t ! i \<noteq> Some entry" if "i < length (buckets t)" "i \<noteq> Suc hole" for i
    using hole_inv_inj [OF H that(1) l _ b] that(2) by auto
  have nb: "buckets t3 ! i = (if i = hole then Some entry else if i = Suc hole then None
                              else buckets t ! i)" if "i < length (buckets t)" for i
    using that l by (simp add: nth_update_cases)
  have slote: "slot t (Suc hole) = Some e" using l b e by (simp add: slot_Some_iff)
  have site: "sits t (Suc hole) e" using h(4) [OF l b] e by auto
  have slot': "slot t3 i = (if i = hole then Some e' else if i = Suc hole then None
                            else slot t i)" for i
  proof (cases "i < length (buckets t)")
    case False
    then show ?thesis using l by (auto simp: slot_def bucket_at_def)
  next
    case True
    show ?thesis
    proof (cases "i = hole \<or> i = Suc hole")
      case True
      then show ?thesis
        using l nb [of i] by (auto simp: slot_def bucket_at_def deref')
    next
      case False
      then show ?thesis
        using True nb [OF True] other [OF True]
        by (auto simp: slot_def bucket_at_def deref' split: option.splits)
    qed
  qed
  have d1: "disp1 t (Suc hole) = Suc (unat (dist_from_des e))" using slote by (rule disp1_Some)
  have disp': "disp1 t3 i = (if i = hole then unat (dist_from_des e)
                             else if i = Suc hole then 0 else disp1 t i)" for i
    using dpos by (simp add: disp1_def slot' de')
  have a1: "Suc hole < length (buckets t3)" "buckets t3 ! Suc hole = None"
    using l by simp_all
  have a2: "\<forall>i p. i < length (buckets t3) \<and> buckets t3 ! i = Some p \<longrightarrow>
            (\<exists>x. deref t3 p = Some x \<and> sits t3 i x)"
  proof (intro allI impI)
    fix i p assume a: "i < length (buckets t3) \<and> buckets t3 ! i = Some p"
    then have il: "i < length (buckets t)" by simp
    show "\<exists>x. deref t3 p = Some x \<and> sits t3 i x"
    proof (cases "i = hole")
      case True
      then have "p = entry" using a nb [OF il] by simp
      moreover have "sits t hole e'"
      proof -
        have "home_index t e' = home_index t e" using ke' by (simp add: home_index_def)
        then show ?thesis using site dpos unfolding sits_def de' ke' by auto
      qed
      ultimately show ?thesis using True by (simp add: deref')
    next
      case False
      then have bi: "buckets t ! i = Some p" "i \<noteq> Suc hole"
        using a nb [OF il] by (auto split: if_splits)
      then have "p \<noteq> entry" using other [OF il] by auto
      then show ?thesis using h(4) [OF il bi(1)] by (simp add: deref')
    qed
  qed
  have a3: "\<forall>i j x y. slot t3 i = Some x \<and> slot t3 j = Some y
            \<and> c_str (key x) = c_str (key y) \<longrightarrow> i = j"
  proof (intro allI impI)
    fix i j x y
    assume a: "slot t3 i = Some x \<and> slot t3 j = Some y \<and> c_str (key x) = c_str (key y)"
    define f where "f = (\<lambda>i. if i = hole then Suc hole else i)"
    have n: "i \<noteq> Suc hole" "j \<noteq> Suc hole" using a by (auto simp: slot')
    have pre: "\<exists>x'. slot t (f m) = Some x' \<and> key x' = key z"
      if "slot t3 m = Some z" for m z
    proof (cases "m = hole")
      case True
      then have "z = e'" using that by (simp add: slot')
      then show ?thesis using True slote ke' by (simp add: f_def)
    next
      case False
      then show ?thesis using that by (auto simp: slot' f_def split: if_splits)
    qed
    obtain x' y' where "slot t (f i) = Some x'" "key x' = key x"
      "slot t (f j) = Some y'" "key y' = key y"
      using pre [of i x] pre [of j y] a by blast
    then have "f i = f j" using h(5) [of "f i" x' "f j" y'] a by simp
    then show "i = j" using n by (auto simp: f_def split: if_splits)
  qed
  have a4: "\<forall>i. Suc i < length (buckets t3) \<and> Suc i \<noteq> Suc hole \<and> i \<noteq> Suc hole \<longrightarrow>
            disp1 t3 (Suc i) \<le> Suc (disp1 t3 i)"
  proof (intro allI impI)
    fix i assume i: "Suc i < length (buckets t3) \<and> Suc i \<noteq> Suc hole \<and> i \<noteq> Suc hole"
    show "disp1 t3 (Suc i) \<le> Suc (disp1 t3 i)"
    proof (cases "Suc i = hole")
      case True
      then have "disp1 t (Suc hole) \<le> disp1 t i + 2" using h(7) [OF l] by auto
      then show ?thesis using True d1 by (simp add: disp')
    next
      case False
      then show ?thesis using h(6) [of i] i by (simp add: disp')
    qed
  qed
  have a5: "Suc (Suc hole) < length (buckets t3) \<longrightarrow>
            disp1 t3 (Suc (Suc hole)) \<le>
              (if Suc hole = 0 then 0 else disp1 t3 (Suc hole - 1)) + 2"
  proof
    assume "Suc (Suc hole) < length (buckets t3)"
    then have "disp1 t (Suc (Suc hole)) \<le> Suc (disp1 t (Suc hole))"
      using h(6) [of "Suc hole"] by simp
    then show "disp1 t3 (Suc (Suc hole)) \<le>
              (if Suc hole = 0 then 0 else disp1 t3 (Suc hole - 1)) + 2"
      using d1 by (simp add: disp')
  qed
  have occ: "occupied t3 = insert hole (occupied t - {Suc hole})"
    using l by (auto simp: occupied_def nth_update_cases split: if_splits)
  have a6: "unat (curr_size t3) = Suc (card (occupied t3))"
  proof -
    have fin: "finite (occupied t)" by (simp add: occupied_def)
    have "Suc hole \<in> occupied t" using l b by (simp add: occupied_def)
    moreover have "hole \<notin> occupied t" using h(3) by (simp add: occupied_def)
    ultimately have "card (occupied t3) = card (occupied t)"
      unfolding occ using fin card_gt_0_iff [of "occupied t"]
      by (auto simp: card_Suc_Diff1)
    then show ?thesis using h(8) by simp
  qed
  show "hole_inv t3 (Suc hole)"
    unfolding hole_inv_def using h(1) a1 a2 a3 a4 a5 a6 by simp
  show "ptrs t3 = ptrs t"
  proof -
    have "p \<in> ptrs t" if mem: "p \<in> ptrs t3" for p
    proof -
      obtain i where i: "i < length (buckets t)" "buckets t3 ! i = Some p"
        using mem by (auto simp: ptrs_def)
      then have "buckets t ! (if i = hole then Suc hole else i) = Some p"
        using nb [OF i(1)] b by (auto split: if_splits)
      moreover have "(if i = hole then Suc hole else i) < length (buckets t)"
        using i(1) l by simp
      ultimately show ?thesis unfolding ptrs_def by blast
    qed
    moreover have "p \<in> ptrs t3" if mem: "p \<in> ptrs t" for p
    proof -
      obtain i where i: "i < length (buckets t)" "buckets t ! i = Some p"
        using mem by (auto simp: ptrs_def)
      have ih: "i \<noteq> hole" using i h(3) by auto
      define j where "j = (if i = Suc hole then hole else i)"
      have "j < length (buckets t3)" "buckets t3 ! j = Some p"
        using i ih b l nb [of j] by (auto simp: j_def)
      then show ?thesis unfolding ptrs_def by blast
    qed
    ultimately show ?thesis by blast
  qed
  show "\<forall>p. payload t3 p = payload t p"
    using e by (auto simp: payload_def deref' ke')
  show "length (heap t3) = length (heap t)" "allocs t3 = allocs t" "refused t3 = refused t"
    "length (buckets t3) = length (buckets t)"
    by (simp_all add: t3 set_bucket_def store_def)
qed

lemma back_shift_ok:
  assumes "hole_inv t hole"
  shows "\<exists>t'. hash_table_back_shift t (Suc hole) = Some t'
           \<and> table_inv (t'\<lparr>curr_size := curr_size t' - 1\<rparr>)
           \<and> ptrs t' = ptrs t \<and> (\<forall>p. payload t' p = payload t p)
           \<and> length (heap t') = length (heap t) \<and> allocs t' = allocs t
           \<and> refused t' = refused t"
  using assms
proof (induction "length (buckets t) - Suc hole" arbitrary: t hole)
  case 0
  note h = hole_invD [OF 0(2)]
  have bound: "unat (max_size t + ucast (max_size_shift t)) = length (buckets t)"
    using h(1) by (rule table_shape_bound)
  have "\<not> Suc hole < length (buckets t)" using 0(1) by simp
  then have "hash_table_back_shift t (Suc hole) = Some t"
    by (subst hash_table_back_shift.simps) (simp add: bound)
  moreover have "table_inv (t\<lparr>curr_size := curr_size t - 1\<rparr>)"
    using \<open>\<not> Suc hole < length (buckets t)\<close> by (intro hole_inv_stop [OF 0(2)]) simp
  ultimately show ?case by simp
next
  case (Suc n)
  note H = Suc.prems
  note h = hole_invD [OF H]
  have bound: "unat (max_size t + ucast (max_size_shift t)) = length (buckets t)"
    using h(1) by (rule table_shape_bound)
  have l: "Suc hole < length (buckets t)" using Suc.hyps(2) by simp
  have stop: ?case if "hash_table_back_shift t (Suc hole) = Some t" "disp1 t (Suc hole) \<le> 1"
  proof -
    have "table_inv (t\<lparr>curr_size := curr_size t - 1\<rparr>)"
      using that(2) by (intro hole_inv_stop [OF H]) simp
    then show ?thesis using that(1) by simp
  qed
  show ?case
  proof (cases "buckets t ! Suc hole")
    case None
    then have "hash_table_back_shift t (Suc hole) = Some t"
      using l by (subst hash_table_back_shift.simps) (simp add: bound bucket_at_def)
    moreover have "disp1 t (Suc hole) = 0"
      using None l by (simp add: disp1_def slot_def bucket_at_def)
    ultimately show ?thesis using stop by simp
  next
    case (Some entry)
    obtain e where e: "deref t entry = Some e" using h(4) [OF l Some] by blast
    have slote: "slot t (Suc hole) = Some e" using l Some e by (simp add: slot_Some_iff)
    show ?thesis
    proof (cases "dist_from_des e = 0")
      case True
      then have "hash_table_back_shift t (Suc hole) = Some t"
        using l Some e by (subst hash_table_back_shift.simps) (simp add: bound bucket_at_def)
      moreover have "disp1 t (Suc hole) = 1"
        using slote True by (simp add: disp1_def)
      ultimately show ?thesis using stop by simp
    next
      case False
      define t3 where "t3 = set_bucket (set_bucket
               (store t entry (e\<lparr>dist_from_des := dist_from_des e - 1\<rparr>))
               hole (Some entry)) (Suc hole) None"
      note s = hole_inv_shift [OF H l Some e False t3_def]
      have "Suc hole < 2 ^ 64" using l shape_length_bound [OF h(1)] by simp
      then have pred: "unat (word_of_nat (Suc hole) - 1 :: size_t) = hole"
        using unat_position_pred [of "Suc hole"] by simp
      have "hole < 2 ^ 64" using \<open>Suc hole < 2 ^ 64\<close> by simp
      then have pred2: "unat (word_of_nat hole :: size_t) = hole"
        by (simp add: unat_of_nat)
      have run: "hash_table_back_shift t (Suc hole) = hash_table_back_shift t3 (Suc (Suc hole))"
        using l Some e False h(2)
        by (subst hash_table_back_shift.simps)
           (simp add: bound bucket_at_def pred pred2 write_bucket_def t3_def Let_def)
      have m: "n = length (buckets t3) - Suc (Suc hole)" using Suc.hyps(2) s(7) by simp
      from Suc.hyps(1) [OF m s(1)] show ?thesis
        unfolding run using s(2-6) by auto
    qed
  qed
qed

lemma remove_from_position_ok:
  assumes inv: "table_inv s" and q: "q < length (buckets s)" "buckets s ! q = Some p"
  shows "\<exists>s'. hash_table_remove_from_position (s\<lparr>heap := (heap s)[p := None]\<rparr>) q
                = Some (True, s')
           \<and> table_inv s' \<and> ptrs s' = ptrs s - {p}
           \<and> (\<forall>x. payload s' x = (if x = p then None else payload s x))
           \<and> length (heap s') = length (heap s) \<and> allocs s' = allocs s
           \<and> refused s' = refused s"
proof -
  define s2 where "s2 = s\<lparr>heap := (heap s)[p := None]\<rparr>"
  define t where "t = set_bucket s2 q None"
  note d = table_invD [OF inv]
  obtain e where e: "deref s p = Some e" "sits s q e"
    using table_inv_sits [OF inv q] by blast
  have live: "p < length (heap s)" using e(1) by (rule deref_Some_live)
  have slotq: "slot s q = Some e" using q e(1) by (simp add: slot_Some_iff)
  have dq: "disp1 s q = Suc (unat (dist_from_des e))" using slotq by (rule disp1_Some)
  have st [simp]: "buckets t = (buckets s)[q := None]" "shift_of t = shift_of s"
    "curr_size t = curr_size s" "max_size t = max_size s"
    "table_shape t = table_shape s" "\<And>i x. sits t i x = sits s i x"
    by (simp_all add: t_def s2_def set_bucket_def shift_of_def table_shape_def sits_def
          home_index_def)
  have deref': "deref t x = (if x = p then None else deref s x)" for x
    using live by (simp add: t_def s2_def deref_def set_bucket_def)
  have other: "buckets s ! i \<noteq> Some p" if "i < length (buckets s)" "i \<noteq> q" for i
    using table_inv_inj [OF inv that(1) q(1) _ q(2)] that(2) by auto
  have slot': "slot t i = (if i = q then None else slot s i)" for i
  proof (cases "i < length (buckets s)")
    case False
    then show ?thesis using q(1) by (auto simp: slot_def bucket_at_def)
  next
    case True
    show ?thesis
    proof (cases "i = q")
      case True
      then show ?thesis using q(1) by (simp add: slot_def bucket_at_def)
    next
      case False
      then show ?thesis
        using True other [OF True False]
        by (auto simp: slot_def bucket_at_def deref' split: option.splits)
    qed
  qed
  have disp': "disp1 t i = (if i = q then 0 else disp1 s i)" for i
    by (simp add: disp1_def slot')
  have a2: "\<forall>i x. i < length (buckets t) \<and> buckets t ! i = Some x \<longrightarrow>
            (\<exists>y. deref t x = Some y \<and> sits t i y)"
  proof (intro allI impI)
    fix i x assume a: "i < length (buckets t) \<and> buckets t ! i = Some x"
    then have iq: "i \<noteq> q" using q(1) by auto
    then have b: "i < length (buckets s)" "buckets s ! i = Some x" using a by simp_all
    then have "x \<noteq> p" using other [OF b(1) iq] by auto
    then show "\<exists>y. deref t x = Some y \<and> sits t i y"
      using table_inv_sits [OF inv b] by (simp add: deref')
  qed
  have a3: "\<forall>i j x y. slot t i = Some x \<and> slot t j = Some y
            \<and> c_str (key x) = c_str (key y) \<longrightarrow> i = j"
    using table_inv_keys [OF inv] by (auto simp: slot' split: if_splits)
  have a4: "\<forall>i. Suc i < length (buckets t) \<and> Suc i \<noteq> q \<and> i \<noteq> q \<longrightarrow>
            disp1 t (Suc i) \<le> Suc (disp1 t i)"
    using table_inv_step [OF inv] by (simp add: disp')
  have a5: "Suc q < length (buckets t) \<longrightarrow>
            disp1 t (Suc q) \<le> (if q = 0 then 0 else disp1 t (q - 1)) + 2"
  proof
    assume l: "Suc q < length (buckets t)"
    then have s1: "disp1 s (Suc q) \<le> Suc (disp1 s q)"
      using table_inv_step [OF inv, of q] by simp
    show "disp1 t (Suc q) \<le> (if q = 0 then 0 else disp1 t (q - 1)) + 2"
    proof (cases "q = 0")
      case True
      then have "unat (dist_from_des e) = 0" using e(2) by (simp add: sits_def)
      then show ?thesis using s1 dq True by (simp add: disp')
    next
      case False
      then have "disp1 s q \<le> Suc (disp1 s (q - 1))"
        using table_inv_step [OF inv, of "q - 1"] q(1) by simp
      moreover have "q - 1 \<noteq> q" using False by simp
      ultimately show ?thesis using s1 False by (simp add: disp')
    qed
  qed
  have a6: "unat (curr_size t) = Suc (card (occupied t))"
  proof -
    have fin: "finite (occupied s)" by (simp add: occupied_def)
    have "q \<in> occupied s" using q by (simp add: occupied_def)
    moreover have "occupied t = occupied s - {q}"
      by (auto simp: occupied_def nth_update_cases split: if_splits)
    ultimately have "card (occupied s) = Suc (card (occupied t))"
      using fin card_Suc_Diff1 [of "occupied s" q] by simp
    then show ?thesis using d(5) by simp
  qed
  have H: "hole_inv t q"
    unfolding hole_inv_def using table_inv_shape [OF inv] q(1) a2 a3 a4 a5 a6 by simp
  obtain t' where t': "hash_table_back_shift t (Suc q) = Some t'"
    "table_inv (t'\<lparr>curr_size := curr_size t' - 1\<rparr>)"
    "ptrs t' = ptrs t" "\<forall>x. payload t' x = payload t x"
    "length (heap t') = length (heap t)" "allocs t' = allocs t" "refused t' = refused t"
    using back_shift_ok [OF H] by blast
  define s' where "s' = t'\<lparr>curr_size := curr_size t' - 1\<rparr>"
  have run: "hash_table_remove_from_position s2 q = Some (True, s')"
    using q(1) t'(1)
    by (simp add: hash_table_remove_from_position_def write_bucket_def s2_def
          t_def [unfolded s2_def, symmetric] s'_def)
  have pt: "ptrs t = ptrs s - {p}"
  proof -
    have "x \<in> ptrs s - {p}" if mem: "x \<in> ptrs t" for x
    proof -
      obtain i where i: "i < length (buckets s)" "(buckets s)[q := None] ! i = Some x"
        using mem by (auto simp: ptrs_def)
      then have iq: "i \<noteq> q" by auto
      then have "buckets s ! i = Some x" using i by simp
      moreover from this have "x \<noteq> p" using other [OF i(1) iq] by auto
      ultimately show ?thesis using i(1) by (auto simp: ptrs_def)
    qed
    moreover have "x \<in> ptrs t" if mem: "x \<in> ptrs s - {p}" for x
    proof -
      obtain i where i: "i < length (buckets s)" "buckets s ! i = Some x" "x \<noteq> p"
        using mem by (auto simp: ptrs_def)
      then have "i \<noteq> q" using q by auto
      then have "(buckets s)[q := None] ! i = Some x" using i by simp
      then show ?thesis using i(1) by (auto simp: ptrs_def)
    qed
    ultimately show ?thesis by blast
  qed
  have pay: "payload t x = (if x = p then None else payload s x)" for x
    by (simp add: payload_def deref')
  have f: "ptrs s' = ptrs t'" "length (heap s') = length (heap t')" "allocs s' = allocs t'"
    "refused s' = refused t'" "\<And>x. payload s' x = payload t' x"
    by (simp_all add: s'_def ptrs_def payload_def deref_def)
  have g: "length (heap t) = length (heap s)" "allocs t = allocs s" "refused t = refused s"
    by (simp_all add: t_def s2_def set_bucket_def)
  show ?thesis
    unfolding s2_def [symmetric]
    using run t'(2-7) pt pay f g by (auto simp: s'_def [symmetric])
qed

lemma ptrs_slot:
  assumes "p \<in> ptrs s" "deref s p = Some e"
  shows "\<exists>i. slot s i = Some e"
  using assms by (auto simp: ptrs_def slot_Some_iff)

lemma remove_after_resize:
  assumes first: "(if hash_table_should_resize_down_factor s
                   then hash_table_resize s (- 1) else Some (True, s)) = Some (True, s1)"
    and inv: "table_inv s1"
  shows "\<exists>ok s'. hash_table_remove s k = Some (ok, s') \<and> remove_post s1 k ok s'
           \<and> refused s' = refused s1 \<and> allocs s' = allocs s1"
proof (cases "\<exists>q e. slot s1 q = Some e \<and> c_str (key e) = c_str k")
  case True
  then obtain q e where qe: "slot s1 q = Some e" "c_str (key e) = c_str k" by blast
  obtain p where p: "q < length (buckets s1)" "buckets s1 ! q = Some p" "deref s1 p = Some e"
    using qe(1) by (auto simp: slot_Some_iff)
  have sit: "sits s1 q e" using inv qe(1) by (rule table_inv_slot_sits)
  then have h: "hash e = djb2_hash (key e)" and d: "unat (dist_from_des e) < shift_of s1"
    by (simp_all add: sits_def)
  note pos = get_position_home [OF inv h qe(2)]
  note walk = lookup_walk_found [OF inv qe]
  obtain s' where s': "hash_table_remove_from_position (s1\<lparr>heap := (heap s1)[p := None]\<rparr>) q
                = Some (True, s')"
    "table_inv s'" "ptrs s' = ptrs s1 - {p}"
    "\<forall>x. payload s' x = (if x = p then None else payload s1 x)"
    "length (heap s') = length (heap s1)" "allocs s' = allocs s1" "refused s' = refused s1"
    using remove_from_position_ok [OF inv p(1,2)] by blast
  have run: "hash_table_remove s k = Some (True, s')"
    using first pos walk d p s'(1)
    by (simp add: hash_table_remove_def hash_table_is_next_found_def shift_of_def
          bucket_at_def hash_table_entry_free_def)
  have pin: "p \<in> ptrs s1" using p(1,2) by (auto simp: ptrs_def)
  have kp: "key_of s1 p = Some (c_str k)" using p(3) qe(2) by (simp add: key_of_def)
  have uniq: "x = p" if "x \<in> ptrs s1" "key_of s1 x = Some (c_str k)" for x
    using table_inv_key_inj [OF inv that(1) pin] that(2) kp by simp
  have "remove_post s1 k True s'"
    unfolding remove_post_def
  proof (intro conjI allI impI)
    show "payload s' x = payload s1 x
          \<or> (payload s' x = None \<and> True \<and> x \<in> ptrs s1 \<and> key_of s1 x = Some (c_str k))" for x
      using s'(4) pin kp by simp
    show "\<forall>x \<in> ptrs s'. key_of s1 x \<noteq> Some (c_str k)"
      using s'(3) uniq by auto
    show "ptrs s' = {x \<in> ptrs s1. key_of s1 x \<noteq> Some (c_str k)}"
      using s'(3) uniq kp by auto
    show "True \<longleftrightarrow> (\<exists>x \<in> ptrs s1. key_of s1 x = Some (c_str k))"
      using pin kp by auto
  qed (use s' pin kp in auto)
  then show ?thesis using run s'(6,7) by blast
next
  case False
  then have absent: "\<forall>q e. slot s1 q = Some e \<longrightarrow> c_str (key e) \<noteq> c_str k" by blast
  obtain w where w: "hash_table_get_position s1 k = Some w" using key_position [OF inv] by blast
  obtain m where m: "iterate_to_next s1 k (unat w) 0 = Some (unat w + m, m)"
    "m \<le> shift_of s1" "m = shift_of s1 \<or> bucket_at s1 (unat w + m) = Some None"
    using lookup_walk_absent [OF inv absent w] by blast
  have run: "hash_table_remove s k = Some (False, s1)"
    using first w m
    by (auto simp: hash_table_remove_def hash_table_is_next_found_def shift_of_def)
  have none: "key_of s1 p \<noteq> Some (c_str k)" if "p \<in> ptrs s1" for p
  proof
    assume a: "key_of s1 p = Some (c_str k)"
    then obtain e where e: "deref s1 p = Some e" "c_str (key e) = c_str k"
      by (auto simp: key_of_def)
    then show False using ptrs_slot [OF that e(1)] absent by blast
  qed
  have "remove_post s1 k False s1"
    unfolding remove_post_def using inv none by auto
  then show ?thesis using run by blast
qed

lemma remove_ok:
  assumes inv: "table_inv s"
  shows "\<exists>ok s'. hash_table_remove s k = Some (ok, s') \<and> remove_post s k ok s'"
proof (cases "hash_table_should_resize_down_factor s")
  case False
  then have "(if hash_table_should_resize_down_factor s
              then hash_table_resize s (- 1) else Some (True, s)) = Some (True, s)" by simp
  from remove_after_resize [OF this inv] show ?thesis by blast
next
  case True
  then have big: "4 < shift_of s"
    by (simp add: hash_table_should_resize_down_factor_def shift_of_def
          HASH_TABLE_INITIAL_SHIFT_def split: if_splits)
  obtain ok1 s1 where r: "hash_table_resize s (- 1) = Some (ok1, s1)" "resize_post s ok1 s1"
    using resize_ok [OF insert_fuel_ok inv order_refl, of "- 1"] big
    unfolding hash_table_resize_def by blast
  note R = r(2) [unfolded resize_post_def]
  show ?thesis
  proof (cases ok1)
    case False
    then have run: "hash_table_remove s k = Some (False, s1)"
      using True r(1) by (simp add: hash_table_remove_def)
    have "refused s1 \<noteq> refused s" using R False by auto
    then have "remove_post s k False s1"
      unfolding remove_post_def using R by auto
    then show ?thesis using run by blast
  next
    case ok: True
    have first: "(if hash_table_should_resize_down_factor s
              then hash_table_resize s (- 1) else Some (True, s)) = Some (True, s1)"
      using True r(1) ok by simp
    have inv1: "table_inv s1" using R by simp
    obtain ok2 s' where t: "hash_table_remove s k = Some (ok2, s')" "remove_post s1 k ok2 s'"
      "refused s' = refused s1" "allocs s' = allocs s1"
      using remove_after_resize [OF first inv1] by blast
    have pay: "payload s1 p = payload s p" for p using R by simp
    have ko: "key_of s1 p = key_of s p" for p using pay by (rule key_of_payload)
    have sub: "ptrs s1 \<subseteq> ptrs s" using R by simp
    have T1: "table_inv s'" "length (heap s') = length (heap s1)" "ptrs s' \<subseteq> ptrs s1"
      using t(2) unfolding remove_post_def by blast+
    have T2: "payload s' p = payload s1 p
            \<or> (payload s' p = None \<and> ok2 \<and> p \<in> ptrs s1 \<and> key_of s1 p = Some (c_str k))" for p
      using t(2) unfolding remove_post_def by blast
    have T3: "\<forall>p \<in> ptrs s'. key_of s1 p \<noteq> Some (c_str k)"
      "\<exists>p \<in> ptrs s1. key_of s1 p = Some (c_str k)" if ok2
      using t(2) that unfolding remove_post_def by blast+
    have T4: "ptrs s' = {p \<in> ptrs s1. key_of s1 p \<noteq> Some (c_str k)}"
      "ok2 \<longleftrightarrow> (\<exists>p \<in> ptrs s1. key_of s1 p = Some (c_str k))"
      using t(2) t(3) unfolding remove_post_def by blast+
    have R1: "length (heap s1) = length (heap s)" "refused s \<le> refused s1"
      "length (allocs s1) \<le> length (allocs s)"
      using r(2) unfolding resize_post_def by blast+
    have R2: "ptrs s1 = ptrs s" if "refused s1 = refused s"
      using r(2) that unfolding resize_post_def by blast
    have "remove_post s k ok2 s'"
      unfolding remove_post_def
    proof (intro conjI allI impI)
      show "table_inv s'" using T1 by simp
      show "length (heap s') = length (heap s)" using T1 R1 by simp
      show "refused s \<le> refused s'" using t(3) R1 by simp
      show "length (allocs s') \<le> length (allocs s)" using t(4) R1 by simp
      show "ptrs s' \<subseteq> ptrs s" using T1 sub by blast
      show "payload s' p = payload s p
            \<or> (payload s' p = None \<and> ok2 \<and> p \<in> ptrs s \<and> key_of s p = Some (c_str k))" for p
        using T2 [of p] sub by (auto simp: pay ko)
      show "\<forall>p \<in> ptrs s'. key_of s p \<noteq> Some (c_str k)" if ok2
        using T3(1) [OF that] by (simp add: ko)
      show "\<exists>p \<in> ptrs s. key_of s p = Some (c_str k)" if ok2
        using T3(2) [OF that] sub by (auto simp: ko)
      show "ptrs s' = {p \<in> ptrs s. key_of s p \<noteq> Some (c_str k)}" if "refused s' = refused s"
        using T4(1) R2 that t(3) by (simp add: ko)
      show "ok2 \<longleftrightarrow> (\<exists>p \<in> ptrs s. key_of s p = Some (c_str k))" if "refused s' = refused s"
        using T4(2) R2 that t(3) by (simp add: ko)
    qed
    then show ?thesis using t(1) by blast
  qed
qed

lemma ptrs_set_bucket_sub: "x \<in> ptrs (set_bucket s i b) \<Longrightarrow> b = Some x \<or> x \<in> ptrs s"
  by (auto simp: ptrs_def set_bucket_def nth_update_cases split: if_splits)

lemma bucket_ptrs: "bucket_at s i = Some (Some p) \<Longrightarrow> p \<in> ptrs s"
  by (auto simp: ptrs_def bucket_at_def split: if_splits)

lemma walk_frame:
  assumes "hash_table_insert_walk s E rich pos pc = Some (s', rich', pos', pc')"
    and "x \<notin> ptrs s" "x \<noteq> rich"
  shows "deref s' x = deref s x \<and> x \<notin> ptrs s' \<and> x \<noteq> rich'"
  using assms
proof (induction "shift_of s - pc" arbitrary: s rich pos pc)
  case 0
  then have "\<not> pc < shift_of s" by simp
  then have "hash_table_insert_walk s E rich pos pc = Some (s, rich, pos, pc)"
    by (intro walk_stop) simp
  then show ?case using 0 by simp
next
  case (Suc n)
  note run = Suc.prems(1) and x = Suc.prems(2,3)
  have pc: "pc < shift_of s" using Suc.hyps(2) by simp
  then have pcu: "pc < unat (max_size_shift s)" by (simp add: shift_of_def)
  show ?case
  proof (cases "bucket_at s pos")
    case None
    then have "hash_table_insert_walk s E rich pos pc = None"
      using pcu by (subst hash_table_insert_walk.simps) simp
    then show ?thesis using run by simp
  next
    case (Some b)
    show ?thesis
    proof (cases b)
      case None
      then have "hash_table_insert_walk s E rich pos pc = Some (s, rich, pos, pc)"
        using Some by (intro walk_stop) simp
      then show ?thesis using run x by simp
    next
      case b: (Some current)
      have cur: "bucket_at s pos = Some (Some current)" using Some b by simp
      have xc: "x \<noteq> current" using bucket_ptrs [OF cur] x(1) by auto
      show ?thesis
      proof (cases "deref s current")
        case None
        then have "hash_table_insert_walk s E rich pos pc = None"
          using pcu cur by (subst hash_table_insert_walk.simps) simp
        then show ?thesis using run by simp
      next
        case ce: (Some ce)
        show ?thesis
        proof (cases "deref s E")
          case None
          then have "hash_table_insert_walk s E rich pos pc = None"
            using pcu cur ce by (subst hash_table_insert_walk.simps) simp
          then show ?thesis using run by simp
        next
          case ee: (Some ee)
          show ?thesis
          proof (cases "c_str (key ce) = c_str (key ee)")
            case True
            then have "hash_table_insert_walk s E rich pos pc = Some (s, rich, pos, pc)"
              using cur ce ee by (intro walk_stop) simp
            then show ?thesis using run x by simp
          next
            case diff: False
            show ?thesis
            proof (cases "deref s rich")
              case None
              then have "hash_table_insert_walk s E rich pos pc = None"
                using pcu cur ce ee diff by (subst hash_table_insert_walk.simps) simp
              then show ?thesis using run by simp
            next
              case re: (Some re)
              note u = walk_unfold [OF pc cur ce ee re diff]
              show ?thesis
              proof (cases "hash_table_should_replace_entry re ce")
                case True
                define s2 where "s2 = store (set_bucket s pos (Some rich)) current
                    (ce\<lparr>dist_from_des := dist_from_des ce + 1\<rparr>)"
                have r2: "hash_table_insert_walk s2 E current (Suc pos) (Suc pc)
                          = Some (s', rich', pos', pc')"
                  using run u True by (simp add: s2_def)
                have a: "x \<notin> ptrs s2"
                  using ptrs_set_bucket_sub [of x s pos "Some rich"] x by (auto simp: s2_def)
                have d: "deref s2 x = deref s x" using xc by (simp add: s2_def deref_store)
                have m: "n = shift_of s2 - Suc pc" using Suc.hyps(2) by (simp add: s2_def)
                from Suc.hyps(1) [OF m r2 a xc] show ?thesis using d by simp
              next
                case False
                define s2 where "s2 = store s rich (re\<lparr>dist_from_des := dist_from_des re + 1\<rparr>)"
                have r2: "hash_table_insert_walk s2 E rich (Suc pos) (Suc pc)
                          = Some (s', rich', pos', pc')"
                  using run u False by (simp add: s2_def)
                have a: "x \<notin> ptrs s2" using x by (simp add: s2_def)
                have d: "deref s2 x = deref s x" using x by (simp add: s2_def deref_store)
                have m: "n = shift_of s2 - Suc pc" using Suc.hyps(2) by (simp add: s2_def)
                from Suc.hyps(1) [OF m r2 a x(2)] show ?thesis using d by simp
              qed
            qed
          qed
        qed
      qed
    qed
  qed
qed

lemma unwind_frame:
  assumes "hash_table_unwind_insertion_changes s I poor i = Some s'"
    and "x \<notin> ptrs s" "x \<noteq> poor"
  shows "deref s' x = deref s x \<and> x \<notin> ptrs s'"
  using assms
proof (induction i arbitrary: s poor rule: less_induct)
  case (less i)
  note run = less.prems(1) and x = less.prems(2,3)
  obtain current p where b: "bucket_at s i = Some (Some current)" and p: "deref s poor = Some p"
    using run by (subst (asm) hash_table_unwind_insertion_changes.simps)
      (auto simp: bind_eq_Some_conv Let_def)
  define s1 where "s1 = store s poor (p\<lparr>dist_from_des := dist_from_des p - 1\<rparr>)"
  obtain c p1 where c: "deref s1 current = Some c" and p1: "deref s1 poor = Some p1"
    using run b p by (subst (asm) hash_table_unwind_insertion_changes.simps)
      (auto simp: bind_eq_Some_conv s1_def Let_def)
  define s2 where "s2 = (if hash_table_should_replace_entry c p1
                 then set_bucket s1 i (Some poor) else s1)"
  define poor1 where "poor1 = (if hash_table_should_replace_entry c p1 then current else poor)"
  have r: "(if poor1 = I \<or> i = 0 then Some s2
            else hash_table_unwind_insertion_changes s2 I poor1 (i - 1)) = Some s'"
    using run b p c p1 unfolding s2_def poor1_def s1_def
    by (subst (asm) hash_table_unwind_insertion_changes.simps) (simp add: Let_def)
  have xc: "x \<noteq> current" using bucket_ptrs [OF b] x(1) by auto
  have d2: "deref s2 x = deref s x" using x(2) by (simp add: s2_def s1_def deref_store)
  have a2: "x \<notin> ptrs s2"
    using ptrs_set_bucket_sub [of x s1 i "Some poor"] x by (auto simp: s2_def s1_def)
  have x1: "x \<noteq> poor1" using xc x(2) by (simp add: poor1_def)
  show ?case
  proof (cases "poor1 = I \<or> i = 0")
    case True
    then show ?thesis using r d2 a2 by simp
  next
    case False
    then have "hash_table_unwind_insertion_changes s2 I poor1 (i - 1) = Some s'"
      using r by simp
    moreover have "i - 1 < i" using False by simp
    ultimately show ?thesis using less.IH [of "i - 1" s2 poor1] a2 x1 d2 by simp
  qed
qed

lemma rehash_frame:
  assumes fr: "frame_ok ins"
    and old: "\<forall>j < length old. old ! j \<noteq> Some x"
  shows "hash_table_rehash_with ins s old bound i = Some s' \<Longrightarrow> x \<notin> ptrs s \<Longrightarrow>
         deref s' x = deref s x \<and> x \<notin> ptrs s'"
proof (induction "bound - i" arbitrary: s i)
  case 0
  then have "hash_table_rehash_with ins s old bound i = Some s"
    by (subst hash_table_rehash_with.simps) simp
  then show ?case using 0 by simp
next
  case (Suc n)
  note run = Suc.prems(1) and x = Suc.prems(2)
  have i: "i < bound" using Suc.hyps(2) by simp
  have n: "n = bound - Suc i" using Suc.hyps(2) by simp
  have il: "i < length old"
    using run i by (subst (asm) hash_table_rehash_with.simps) (simp split: if_splits)
  show ?case
  proof (cases "old ! i")
    case None
    then have "hash_table_rehash_with ins s old bound (Suc i) = Some s'"
      using run i il by (subst (asm) hash_table_rehash_with.simps) simp
    from Suc.hyps(1) [OF n this x] show ?thesis .
  next
    case (Some entry)
    have xe: "x \<noteq> entry" using old il Some by auto
    obtain e where e: "deref s entry = Some e"
      using run i il Some by (subst (asm) hash_table_rehash_with.simps)
        (auto split: option.splits)
    define s0 where "s0 = store s entry (e\<lparr>dist_from_des := 0\<rparr>)"
    obtain ok s1 where r: "ins s0 entry = Some (ok, s1)"
      and r2: "hash_table_rehash_with ins s1 old bound (Suc i) = Some s'"
      using run i il Some e by (subst (asm) hash_table_rehash_with.simps)
        (auto simp: s0_def split: option.splits)
    have "x \<notin> ptrs s0" using x by (simp add: s0_def)
    then have "deref s1 x = deref s0 x \<and> x \<notin> ptrs s1"
      using fr r xe unfolding frame_ok_def by blast
    moreover have "deref s0 x = deref s x" using xe by (simp add: s0_def deref_store)
    ultimately show ?thesis using Suc.hyps(1) [OF n r2] by simp
  qed
qed

lemma buckets_alloc_frame:
  assumes "hash_table_buckets_alloc s = (nb, s')"
  shows "heap s' = heap s" "buckets s' = buckets s" "max_size s' = max_size s"
    "max_size_shift s' = max_size_shift s" "curr_size s' = curr_size s"
    "\<And>l. nb = Some l \<Longrightarrow> set l \<subseteq> {None}"
  using assms
  by (auto simp: hash_table_buckets_alloc_def alloc_request_def Let_def
        split: list.splits if_splits)

lemma resize_frame:
  assumes fr: "frame_ok ins"
    and run: "hash_table_resize_with ins s amt = Some (ok, s')" and x: "x \<notin> ptrs s"
  shows "deref s' x = deref s x \<and> x \<notin> ptrs s'"
proof -
  define s1 where "s1 = s\<lparr>max_size_shift := max_size_shift s + word_of_int amt,
                   max_size := (if amt \<ge> 0 then push_bit (nat amt) (max_size s)
                                else drop_bit (nat (- amt)) (max_size s))\<rparr>"
  obtain nb s2 where a: "hash_table_buckets_alloc s1 = (nb, s2)" by (cases "hash_table_buckets_alloc s1")
  note f = buckets_alloc_frame [OF a]
  have h2: "heap s2 = heap s" "buckets s2 = buckets s" using f(1,2) by (simp_all add: s1_def)
  have rng: "- 64 < amt \<and> amt < 64"
    using run by (auto simp: hash_table_resize_with_def split: if_splits)
  show ?thesis
  proof (cases nb)
    case None
    then have "s' = s2\<lparr>max_size := max_size s, max_size_shift := max_size_shift s\<rparr>"
      using run rng a by (simp add: hash_table_resize_with_def s1_def [symmetric] Let_def)
    then show ?thesis using x h2 by (simp add: deref_def ptrs_def)
  next
    case (Some l)
    define s3 where "s3 = s2\<lparr>buckets := l, curr_size := 0\<rparr>"
    have r: "hash_table_rehash_with ins s3 (buckets s2)
               (unat (max_size s + ucast (max_size_shift s))) 0 = Some s'"
      using run rng a Some
      by (simp add: hash_table_resize_with_def s1_def [symmetric] Let_def s3_def
            split: option.splits)
    have "ptrs s3 = {}"
      using f(6) [OF Some] by (auto simp: ptrs_def s3_def dest: nth_mem)
    moreover have "\<forall>j < length (buckets s2). buckets s2 ! j \<noteq> Some x"
      using x h2 by (auto simp: ptrs_def)
    ultimately have "deref s' x = deref s3 x \<and> x \<notin> ptrs s'"
      using rehash_frame [OF fr _ r] by simp
    then show ?thesis using h2 by (simp add: s3_def deref_def)
  qed
qed

lemma insert_fuel_frame: "frame_ok (hash_table_insert_fuel n)"
proof (induction n)
  case 0
  show ?case by (simp add: frame_ok_def hash_table_insert_fuel.simps)
next
  case (Suc n)
  show ?case
    unfolding frame_ok_def
  proof (intro allI impI, elim conjE)
    fix s E ok s' x
    assume run: "hash_table_insert_fuel (Suc n) s E = Some (ok, s')"
      and x: "x \<notin> ptrs s" "x \<noteq> E"
    obtain ee where ee: "deref s E = Some ee"
      using run by (cases "deref s E") (simp_all add: hash_table_insert_fuel.simps)
    obtain w where w: "fibonacci_hash (hash ee) (unat (max_size_shift s)) = Some w"
      using run ee by (cases "fibonacci_hash (hash ee) (unat (max_size_shift s))")
        (simp_all add: hash_table_insert_fuel.simps)
    obtain s1 rich pos pc where
      walk: "hash_table_insert_walk s E E (unat w) 0 = Some (s1, rich, pos, pc)"
      using run ee w by (cases "hash_table_insert_walk s E E (unat w) 0")
        (auto simp: hash_table_insert_fuel.simps)
    note u = insert_fuel_Suc [OF ee w walk, of n]
    have f1: "deref s1 x = deref s x" "x \<notin> ptrs s1" "x \<noteq> rich"
      using walk_frame [OF walk x] by simp_all
    show "deref s' x = deref s x \<and> x \<notin> ptrs s'"
    proof (cases "hash_table_is_next_found s1 pc")
      case True
      obtain b s2 where b: "bucket_at s1 pos = Some b"
        and s2: "(case b of Some current \<Rightarrow> hash_table_entry_free s1 current
                  | None \<Rightarrow> Some (s1\<lparr>curr_size := curr_size s1 + 1\<rparr>)) = Some s2"
        and s': "s' = set_bucket s2 pos (Some rich)"
        using run True unfolding u by (auto split: option.splits)
      have f2: "deref s2 x = deref s1 x \<and> ptrs s2 = ptrs s1"
      proof (cases b)
        case None
        then show ?thesis using s2 by (auto simp: deref_def ptrs_def)
      next
        case (Some current)
        then have "current \<in> ptrs s1" using b bucket_ptrs by simp
        then have "x \<noteq> current" using f1(2) by auto
        then show ?thesis
          using s2 Some
          by (auto simp: hash_table_entry_free_def deref_def ptrs_def split: option.splits)
      qed
      have "x \<notin> ptrs s'"
        using ptrs_set_bucket_sub [of x s2 pos "Some rich"] f1 f2 by (auto simp: s')
      then show ?thesis using f1 f2 by (simp add: s')
    next
      case False
      obtain s2 where s2: "hash_table_unwind_insertion_changes s1 E rich
                (unat (word_of_nat pos - 1 :: size_t)) = Some s2"
        using run False unfolding u by (auto split: option.splits)
      obtain ok3 s3 where
        s3: "hash_table_resize_with (hash_table_insert_fuel n) s2 1 = Some (ok3, s3)"
        using run False s2 unfolding u by (auto split: option.splits)
      have f2: "deref s2 x = deref s1 x" "x \<notin> ptrs s2"
        using unwind_frame [OF s2 f1(2,3)] by simp_all
      have f3: "deref s3 x = deref s2 x" "x \<notin> ptrs s3"
        using resize_frame [OF Suc s3 f2(2)] by simp_all
      show ?thesis
      proof (cases ok3)
        case no: False
        then have "s' = s3" using run False s2 s3 unfolding u by simp
        then show ?thesis using f1 f2 f3 by simp
      next
        case True
        obtain e3 where e3: "deref s3 E = Some e3"
          and r: "hash_table_insert_fuel n (store s3 E (e3\<lparr>dist_from_des := 0\<rparr>)) E
                  = Some (ok, s')"
          using run False s2 s3 True unfolding u by (auto split: option.splits)
        have "x \<notin> ptrs (store s3 E (e3\<lparr>dist_from_des := 0\<rparr>))" using f3 by simp
        then have "deref s' x = deref (store s3 E (e3\<lparr>dist_from_des := 0\<rparr>)) x
                   \<and> x \<notin> ptrs s'"
          using Suc r x(2) unfolding frame_ok_def by blast
        then show ?thesis using f1 f2 f3 x(2) by (simp add: deref_store)
      qed
    qed
  qed
qed

lemma table_inv_heap_other:
  assumes inv: "table_inv s" and "p \<notin> ptrs s"
  shows "table_inv (s\<lparr>heap := (heap s)[p := x]\<rparr>)"
proof -
  define t where "t = s\<lparr>heap := (heap s)[p := x]\<rparr>"
  have notin: "\<forall>i. i < length (buckets s) \<longrightarrow> buckets s ! i \<noteq> Some p"
    using assms(2) by (auto simp: ptrs_def)
  have de: "deref t q = deref s q" if "q \<noteq> p" for q
    using that by (simp add: t_def deref_def)
  have b: "buckets t = buckets s" "shift_of t = shift_of s" "max_size t = max_size s"
    "curr_size t = curr_size s" "occupied t = occupied s"
    by (simp_all add: t_def shift_of_def occupied_def)
  have sl: "slot t i = slot s i" for i
  proof (cases "i < length (buckets s)")
    case False
    then show ?thesis by (simp add: slot_def bucket_at_def b)
  next
    case True
    then show ?thesis using notin de
      by (cases "buckets s ! i") (auto simp: slot_def bucket_at_def b)
  qed
  have dl: "disp1 t i = disp1 s i" for i by (simp add: disp1_def sl)
  have si: "sits t i e = sits s i e" for i e by (simp add: sits_def home_index_def b)
  have "\<forall>i q. i < length (buckets s) \<and> buckets s ! i = Some q \<longrightarrow>
       (\<exists>e'. deref t q = Some e' \<and> sits s i e')"
  proof (intro allI impI)
    fix i q assume a: "i < length (buckets s) \<and> buckets s ! i = Some q"
    then have "q \<noteq> p" using notin by auto
    then show "\<exists>e'. deref t q = Some e' \<and> sits s i e'"
      using table_inv_sits [OF inv, of i q] a by (simp add: de)
  qed
  then have "table_inv t"
    using inv unfolding table_inv_def by (simp add: sl dl si b)
  then show ?thesis by (simp add: t_def)
qed

lemma set_map_filter_iff:
  "y \<in> set (List.map_filter f xs) \<longleftrightarrow> (\<exists>x \<in> set xs. f x = Some y)"
  by (induction xs) (auto simp: map_filter_simps split: option.splits)

lemma set_entries: "set (entries s) = {e. \<exists>p \<in> ptrs s. deref s p = Some e}"
proof -
  have "e \<in> {e. \<exists>p \<in> ptrs s. deref s p = Some e}" if mem: "e \<in> set (entries s)" for e
  proof -
    obtain b where b: "b \<in> set (buckets s)"
      "(case b of None \<Rightarrow> None | Some p \<Rightarrow> deref s p) = Some e"
      using mem unfolding entries_def set_map_filter_iff by blast
    have "\<exists>p. b = Some p \<and> deref s p = Some e"
      using b(2) by (cases b) simp_all
    then obtain p where p: "b = Some p" "deref s p = Some e" by blast
    obtain i where "i < length (buckets s)" "buckets s ! i = b"
      using b(1) by (auto simp: in_set_conv_nth)
    then have "p \<in> ptrs s" using p(1) by (auto simp: ptrs_def)
    then show ?thesis using p(2) by blast
  qed
  moreover have "e \<in> set (entries s)" if mem: "e \<in> {e. \<exists>p \<in> ptrs s. deref s p = Some e}" for e
  proof -
    obtain p i where p: "deref s p = Some e" "i < length (buckets s)" "buckets s ! i = Some p"
      using mem by (auto simp: ptrs_def)
    then have "Some p \<in> set (buckets s)" by (metis nth_mem)
    moreover have "(case Some p of None \<Rightarrow> None | Some p \<Rightarrow> deref s p) = Some e"
      using p(1) by simp
    ultimately show ?thesis unfolding entries_def set_map_filter_iff by blast
  qed
  ultimately show ?thesis by blast
qed

lemma stored_None_iff:
  "stored s k = None \<longleftrightarrow> (\<forall>p \<in> ptrs s. key_of s p \<noteq> Some (c_str k))"
proof -
  have "stored s k = None \<longleftrightarrow> \<not> (\<exists>e. e \<in> set (entries s) \<and> c_str (key e) = c_str k)"
    by (simp add: stored_def find_None_iff)
  also have "\<dots> \<longleftrightarrow> (\<forall>p \<in> ptrs s. key_of s p \<noteq> Some (c_str k))"
    by (auto simp: set_entries key_of_def)
  finally show ?thesis .
qed

lemma stored_SomeD:
  assumes "stored s k = Some d"
  shows "\<exists>p \<in> ptrs s. \<exists>e. deref s p = Some e \<and> c_str (key e) = c_str k \<and> data e = d"
proof -
  obtain e where e: "find (\<lambda>e. c_str (key e) = c_str k) (entries s) = Some e" "data e = d"
    using assms by (auto simp: stored_def)
  then have "e \<in> set (entries s)" "c_str (key e) = c_str k"
    by (auto simp: find_Some_iff)
  then show ?thesis using e(2) by (auto simp: set_entries)
qed

lemma stored_SomeI:
  assumes inv: "table_inv s" and p: "p \<in> ptrs s" "deref s p = Some e" "c_str (key e) = c_str k"
  shows "stored s k = Some (data e)"
proof -
  have "key_of s p = Some (c_str k)" using p(2,3) by (simp add: key_of_def)
  then have "stored s k \<noteq> None" using p(1) by (auto simp: stored_None_iff)
  then obtain d where d: "stored s k = Some d" by auto
  from stored_SomeD [OF d] obtain q e' where
    q: "q \<in> ptrs s" "deref s q = Some e'" "c_str (key e') = c_str k" "data e' = d" by blast
  have "key_of s q = key_of s p" using q(2,3) p(2,3) by (simp add: key_of_def)
  then have "q = p" using table_inv_key_inj [OF inv q(1) p(1)] by simp
  then show ?thesis using d q(2,4) p(2) by simp
qed

lemma stored_cong:
  assumes "buckets t = buckets s" "\<forall>p \<in> ptrs s. deref t p = deref s p"
  shows "stored t k = stored s k"
proof -
  have "(case b of None \<Rightarrow> None | Some p \<Rightarrow> deref t p)
        = (case b of None \<Rightarrow> None | Some p \<Rightarrow> deref s p)" if mem: "b \<in> set (buckets s)" for b
  proof (cases b)
    case None
    then show ?thesis by simp
  next
    case (Some p)
    obtain i where "i < length (buckets s)" "buckets s ! i = b"
      using mem by (auto simp: in_set_conv_nth)
    then have "p \<in> ptrs s" using Some by (auto simp: ptrs_def)
    then show ?thesis using assms(2) Some by simp
  qed
  then have "entries t = entries s"
    unfolding entries_def map_filter_def assms(1)
    by (intro map_cong filter_cong) auto
  then show ?thesis by (simp add: stored_def)
qed

lemma stored_mono:
  assumes inv: "table_inv s"
    and sub: "\<forall>p \<in> ptrs s'. payload s' p \<noteq> None \<longrightarrow> p \<in> ptrs s \<and> payload s' p = payload s p"
    and st: "stored s' k = Some d"
  shows "stored s k = Some d"
proof -
  from stored_SomeD [OF st] obtain p e where
    p: "p \<in> ptrs s'" "deref s' p = Some e" "c_str (key e) = c_str k" "data e = d" by blast
  have "payload s' p \<noteq> None" using p(2) by (simp add: payload_def)
  then have q: "p \<in> ptrs s" "payload s p = payload s' p" using sub p(1) by auto
  from payload_eq_live [OF q(2) p(2)] obtain e' where
    "deref s p = Some e'" "key e' = key e" "data e' = data e" by metis
  then show ?thesis using stored_SomeI [OF inv q(1), of e' k] p(3,4) by simp
qed

lemma get_stored:
  assumes inv: "table_inv s"
  shows "hash_table_get s k = Some (case stored s k of None \<Rightarrow> 0 | Some d \<Rightarrow> d)"
proof (cases "stored s k")
  case None
  have "\<forall>q e. slot s q = Some e \<longrightarrow> c_str (key e) \<noteq> c_str k"
  proof (intro allI impI)
    fix q e assume "slot s q = Some e"
    then obtain p where "p \<in> ptrs s" "deref s p = Some e" using slot_ptrs by blast
    then show "c_str (key e) \<noteq> c_str k"
      using None by (auto simp: stored_None_iff key_of_def)
  qed
  then show ?thesis using get_absent [OF inv] None by simp
next
  case (Some d)
  from stored_SomeD [OF Some] obtain p e where
    p: "p \<in> ptrs s" "deref s p = Some e" "c_str (key e) = c_str k" "data e = d" by blast
  obtain q where "slot s q = Some e" using ptrs_slot [OF p(1,2)] by blast
  then show ?thesis using get_found [OF inv _ p(3)] Some p(4) by simp
qed

lemma size_card:
  assumes inv: "table_inv s"
  shows "unat (curr_size s) = card (ptrs s)"
proof -
  have "ptrs s = (\<lambda>i. the (buckets s ! i)) ` occupied s"
    by (force simp: ptrs_def occupied_def image_def)
  moreover have "inj_on (\<lambda>i. the (buckets s ! i)) (occupied s)"
  proof (rule inj_onI)
    fix i j assume a: "i \<in> occupied s" "j \<in> occupied s"
      "the (buckets s ! i) = the (buckets s ! j)"
    then obtain p where "buckets s ! i = Some p" "buckets s ! j = Some p"
      by (auto simp: occupied_def)
    then show "i = j" using table_inv_inj [OF inv, of i j p] a(1,2) by (simp add: occupied_def)
  qed
  ultimately have "card (ptrs s) = card (occupied s)" by (simp add: card_image)
  then show ?thesis using table_invD(5) [OF inv] by simp
qed

lemma finite_ptrs: "finite (ptrs s)"
proof -
  have "ptrs s \<subseteq> (\<lambda>i. the (buckets s ! i)) ` {..<length (buckets s)}"
    by (force simp: ptrs_def image_def)
  then show ?thesis by (rule finite_surj [rotated]) simp
qed

lemma create_ok:
  assumes "hash_table_create answers = Some s"
  shows "table_inv s" "ptrs s = {}" "curr_size s = 0" "shift_of s = 4" "refused s = 0"
    "heap s = []"
proof -
  have f: "max_size_shift s = 4" "max_size s = 16" "curr_size s = 0"
    "buckets s = replicate 20 None" "refused s = 0" "heap s = []"
    using assms
    by (auto simp: hash_table_create_def alloc_request_def hash_table_buckets_alloc_def
          HASH_TABLE_INITIAL_SHIFT_def Let_def split: list.splits if_splits)
  have "table_inv s \<and> ptrs s = {}"
    using table_inv_fresh [of s] f by simp
  then show "table_inv s" "ptrs s = {}" "curr_size s = 0" "shift_of s = 4" "refused s = 0"
    "heap s = []"
    using f by (simp_all add: shift_of_def)
qed

lemma table_inv_cong:
  assumes inv: "table_inv s"
    and f: "buckets t = buckets s" "max_size_shift t = max_size_shift s"
      "max_size t = max_size s" "curr_size t = curr_size s"
    and de: "\<forall>p \<in> ptrs s. deref t p = deref s p"
  shows "table_inv t"
proof -
  have b: "shift_of t = shift_of s" "occupied t = occupied s"
    by (simp_all add: f shift_of_def occupied_def)
  have sl: "slot t i = slot s i" for i
  proof (cases "i < length (buckets s)")
    case False
    then show ?thesis by (simp add: slot_def bucket_at_def f)
  next
    case True
    show ?thesis
    proof (cases "buckets s ! i")
      case None
      then show ?thesis using True by (simp add: slot_def bucket_at_def f)
    next
      case (Some q)
      then have "q \<in> ptrs s" using True by (auto simp: ptrs_def)
      then show ?thesis using de True Some by (simp add: slot_def bucket_at_def f)
    qed
  qed
  have dl: "disp1 t i = disp1 s i" for i by (simp add: disp1_def sl)
  have si: "sits t i e = sits s i e" for i e by (simp add: sits_def home_index_def b)
  have "\<forall>i q. i < length (buckets s) \<and> buckets s ! i = Some q \<longrightarrow>
       (\<exists>e'. deref t q = Some e' \<and> sits s i e')"
  proof (intro allI impI)
    fix i q assume a: "i < length (buckets s) \<and> buckets s ! i = Some q"
    then have "q \<in> ptrs s" by (auto simp: ptrs_def)
    then show "\<exists>e'. deref t q = Some e' \<and> sits s i e'"
      using table_inv_sits [OF inv, of i q] a de by simp
  qed
  then show ?thesis
    using inv unfolding table_inv_def by (simp add: sl dl si b f)
qed

lemma entry_create_cases:
  obtains (fail) s1 where "hash_table_entry_create s k d = (None, s1)"
      "refused s < refused s1" "heap s1 = heap s" "buckets s1 = buckets s"
      "max_size s1 = max_size s" "max_size_shift s1 = max_size_shift s"
      "curr_size s1 = curr_size s"
  | (ok) rest where "allocs s = True # True # rest"
      "hash_table_entry_create s k d =
         (Some (length (heap s)),
          s\<lparr>heap := heap s @ [Some \<lparr>key = c_str k, hash = djb2_hash k, data = d,
                                    dist_from_des = 0\<rparr>],
            allocs := rest\<rparr>)"
proof (cases "fst (hash_table_entry_create s k d)")
  case None
  obtain s1 where s1: "hash_table_entry_create s k d = (None, s1)"
    using None by (cases "hash_table_entry_create s k d") simp
  then have "refused s < refused s1 \<and> heap s1 = heap s \<and> buckets s1 = buckets s
      \<and> max_size s1 = max_size s \<and> max_size_shift s1 = max_size_shift s
      \<and> curr_size s1 = curr_size s"
    by (auto simp: hash_table_entry_create_def alloc_request_def Let_def
          split: list.splits if_splits prod.splits)
  then show ?thesis using s1 fail by blast
next
  case (Some E)
  then obtain rest where "allocs s = True # True # rest"
    "hash_table_entry_create s k d =
         (Some (length (heap s)),
          s\<lparr>heap := heap s @ [Some \<lparr>key = c_str k, hash = djb2_hash k, data = d,
                                    dist_from_des = 0\<rparr>],
            allocs := rest\<rparr>)"
    by (cases "hash_table_entry_create s k d")
       (auto simp: hash_table_entry_create_def alloc_request_def Let_def
          split: list.splits if_splits prod.splits)
  then show ?thesis using ok by blast
qed

lemma entry_created:
  assumes inv: "table_inv s"
    and s1: "s1 = s\<lparr>heap := heap s @ [Some \<lparr>key = c_str k, hash = djb2_hash k, data = d,
                                    dist_from_des = 0\<rparr>], allocs := rest\<rparr>"
    and E: "E = length (heap s)"
  shows "table_inv s1" "ptrs s1 = ptrs s" "new_entry s1 E" "E \<notin> ptrs s"
    "\<And>p. p \<noteq> E \<Longrightarrow> payload s1 p = payload s p"
    "payload s1 E = Some (c_str k, djb2_hash k, d)"
    "refused s1 = refused s" "curr_size s1 = curr_size s"
    "\<And>k'. stored s1 k' = stored s k'"
proof -
  have live: "p < length (heap s)" if "p \<in> ptrs s" for p
    using table_inv_ptr_live [OF inv that] deref_Some_live by metis
  show notin: "E \<notin> ptrs s" using live E by auto
  have de: "deref s1 p = deref s p" if "p \<noteq> E" for p
    using that by (auto simp: s1 E deref_def nth_append)
  have dE: "deref s1 E = Some \<lparr>key = c_str k, hash = djb2_hash k, data = d, dist_from_des = 0\<rparr>"
    by (simp add: s1 E deref_def)
  have dp: "\<forall>p \<in> ptrs s. deref s1 p = deref s p" using de notin by metis
  show "table_inv s1" using inv _ _ _ _ dp by (rule table_inv_cong) (simp_all add: s1)
  show pt: "ptrs s1 = ptrs s" by (simp add: s1 ptrs_def)
  have "djb2_hash k = djb2_hash (c_str k)" by (rule djb2_hash_c_str) simp
  then show "new_entry s1 E" using dE notin pt by (simp add: new_entry_def)
  show "payload s1 p = payload s p" if "p \<noteq> E" for p
    using de [OF that] by (simp add: payload_def)
  show "payload s1 E = Some (c_str k, djb2_hash k, d)" using dE by (simp add: payload_def)
  show "refused s1 = refused s" "curr_size s1 = curr_size s" by (simp_all add: s1)
  show "stored s1 k' = stored s k'" for k'
    using _ dp by (rule stored_cong) (simp add: s1)
qed

lemma entry_free_unlinked:
  assumes inv: "table_inv s" and E: "E \<notin> ptrs s" "deref s E \<noteq> None"
  obtains s' where "hash_table_entry_free s E = Some s'" "table_inv s'"
    "\<And>k. stored s' k = stored s k" "refused s' = refused s" "deref s' E = None"
    "buckets s' = buckets s" "curr_size s' = curr_size s"
    "max_size_shift s' = max_size_shift s" "max_size s' = max_size s"
    "\<And>p. p \<noteq> E \<Longrightarrow> deref s' p = deref s p"
proof -
  define s' where "s' = s\<lparr>heap := (heap s)[E := None]\<rparr>"
  have run: "hash_table_entry_free s E = Some s'"
    using E(2) by (auto simp: hash_table_entry_free_def s'_def)
  have inv': "table_inv s'" unfolding s'_def using inv E(1) by (rule table_inv_heap_other)
  have de: "deref s' p = deref s p" if "p \<noteq> E" for p
    using that by (simp add: s'_def deref_def)
  have "\<forall>p \<in> ptrs s. deref s' p = deref s p" using de E(1) by metis
  then have st: "stored s' k = stored s k" for k
    using stored_cong [of s' s] by (simp add: s'_def)
  have "deref s' E = None" by (simp add: s'_def deref_def)
  then show ?thesis using that [OF run inv' st] de by (simp add: s'_def)
qed

lemma add_tail:
  assumes inv: "table_inv s" and inv2: "table_inv s2" and new2: "new_entry s2 E"
    and En: "E \<notin> ptrs s"
    and sub: "ptrs s2 \<subseteq> ptrs s"
    and pay: "\<And>p. p \<noteq> E \<Longrightarrow> payload s2 p = payload s p"
    and payE: "payload s2 E = Some (c_str k, h, d)"
    and rf: "refused s \<le> refused s2"
    and eq: "refused s2 = refused s \<Longrightarrow> ptrs s2 = ptrs s"
  shows "\<exists>ok s'.
     (case hash_table_insert s2 E of
        None \<Rightarrow> None
      | Some (inserted, s3) \<Rightarrow>
          if \<not> inserted
          then (case hash_table_entry_free s3 E of None \<Rightarrow> None | Some s4 \<Rightarrow> Some (False, s4))
          else Some (True, s3)) = Some (ok, s')
     \<and> add_post s k d ok s'"
proof -
  obtain ok3 s3 where r3: "hash_table_insert s2 E = Some (ok3, s3)"
    and post: "ins_post s2 E ok3 s3"
    using insert_fuel_ok [of "Suc (length (allocs s2))"] inv2 new2
    unfolding ins_ok_def hash_table_insert_def by (metis lessI)
  have P1: "table_inv s3" "refused s2 \<le> refused s3" "ptrs s3 \<subseteq> insert E (ptrs s2)"
    "payload s3 E = payload s2 E" "ok3 \<longleftrightarrow> E \<in> ptrs s3"
    using post unfolding ins_post_def by blast+
  have P2: "payload s3 p = payload s2 p
            \<or> (payload s3 p = None \<and> p \<in> ptrs s2 \<and> key_of s2 p = key_of s2 E)" for p
    using post unfolding ins_post_def by blast
  have P3: "ok3" "ptrs s3 = insert E {p \<in> ptrs s2. key_of s2 p \<noteq> key_of s2 E}"
    if "refused s3 = refused s2"
    using post that unfolding ins_post_def by blast+
  have kE: "key_of s2 E = Some (c_str k)"
    using payE by (auto simp: payload_def key_of_def)
  have k2: "key_of s2 p = key_of s p" if "p \<noteq> E" for p
    using pay [OF that] by (rule key_of_payload)
  have old: "p \<in> ptrs s \<and> payload s3 p = payload s p"
    if p: "p \<in> ptrs s3" "p \<noteq> E" "payload s3 p \<noteq> None" for p
  proof -
    have "p \<in> ptrs s2" using P1(3) p(1,2) by auto
    moreover have "payload s3 p = payload s2 p" using P2 [of p] p(3) by auto
    ultimately show ?thesis using sub pay [OF p(2)] by auto
  qed
  have mono: "stored s k' = Some d'"
    if a: "stored s3 k' = Some d'" "c_str k' \<noteq> c_str k \<or> E \<notin> ptrs s3" for k' d'
  proof -
    from stored_SomeD [OF a(1)] obtain p e where
      p: "p \<in> ptrs s3" "deref s3 p = Some e" "c_str (key e) = c_str k'" "data e = d'"
      by blast
    have ne: "p \<noteq> E"
    proof
      assume "p = E"
      then have "payload s3 E = Some (key e, hash e, data e)"
        using p(2) by (simp add: payload_def)
      then have "key e = c_str k" using P1(4) payE by simp
      then show False using p(1,3) a(2) \<open>p = E\<close> by simp
    qed
    have "payload s3 p \<noteq> None" using p(2) by (simp add: payload_def)
    then have q: "p \<in> ptrs s" "payload s p = payload s3 p" using old [OF p(1) ne] by simp_all
    from payload_eq_live [OF q(2) p(2)] obtain e' where
      "deref s p = Some e'" "key e' = key e" "data e' = data e" by metis
    then show ?thesis using stored_SomeI [OF inv q(1), of e' k'] p(3,4) by simp
  qed
  show ?thesis
  proof (cases ok3)
    case False
    then have E3: "E \<notin> ptrs s3" using P1(5) by simp
    have "deref s3 E \<noteq> None" using P1(4) payE by (auto simp: payload_def)
    from entry_free_unlinked [OF P1(1) E3 this] obtain s4 where
      s4: "hash_table_entry_free s3 E = Some s4" "table_inv s4"
      "\<And>k. stored s4 k = stored s3 k" "refused s4 = refused s3" by metis
    have "refused s3 \<noteq> refused s2" using P3(1) False by auto
    then have "refused s < refused s4" using rf P1(2) s4(4) by simp
    moreover have "stored s k' = Some d'" if "stored s4 k' = Some d'" for k' d'
      using mono [of k' d'] that E3 by (simp add: s4(3))
    ultimately have "add_post s k d False s4"
      unfolding add_post_def using s4(2) by simp
    then show ?thesis using r3 False s4(1) by auto
  next
    case True
    then have E3: "E \<in> ptrs s3" using P1(5) by simp
    have "payload s3 E = Some (c_str k, h, d)" using P1(4) payE by simp
    then obtain e where e: "deref s3 E = Some e" "key e = c_str k" "data e = d"
      by (auto simp: payload_def)
    have A: "stored s3 k = Some d"
      using stored_SomeI [OF P1(1) E3 e(1), of k] e(2,3) by simp
    have C: "(\<forall>k'. c_str k' \<noteq> c_str k \<longrightarrow> stored s3 k' = stored s k')
        \<and> unat (curr_size s3) =
            (if stored s k = None then Suc (unat (curr_size s)) else unat (curr_size s))"
      if same: "refused s3 = refused s"
    proof -
      have r: "refused s2 = refused s" "refused s3 = refused s2"
        using same rf P1(2) by simp_all
      have pt2: "ptrs s2 = ptrs s" using eq r(1) by simp
      have pt3: "ptrs s3 = insert E {p \<in> ptrs s. key_of s p \<noteq> Some (c_str k)}"
      proof -
        have "{p \<in> ptrs s. key_of s2 p \<noteq> key_of s2 E}
              = {p \<in> ptrs s. key_of s p \<noteq> Some (c_str k)}"
        proof -
          have "key_of s2 p = key_of s p" if "p \<in> ptrs s" for p
            using k2 [of p] En that by auto
          then show ?thesis by (auto simp: kE)
        qed
        then show ?thesis using P3(2) [OF r(2)] pt2 by simp
      qed
      have keep: "stored s3 k' = stored s k'" if nk: "c_str k' \<noteq> c_str k" for k'
      proof (cases "stored s k'")
        case None
        then show ?thesis using mono [of k'] nk by (cases "stored s3 k'") auto
      next
        case (Some d')
        from stored_SomeD [OF Some] obtain p e' where
          p: "p \<in> ptrs s" "deref s p = Some e'" "c_str (key e') = c_str k'" "data e' = d'"
          by blast
        have pE: "p \<noteq> E" using p(1) En by auto
        have kp: "key_of s p = Some (c_str k')" using p(2,3) by (simp add: key_of_def)
        then have in3: "p \<in> ptrs s3" using pt3 p(1) nk by simp
        have "key_of s2 p \<noteq> key_of s2 E" using k2 [OF pE] kp kE nk by simp
        then have "payload s3 p = payload s p" using P2 [of p] pay [OF pE] by auto
        from payload_eq_live [OF this p(2)] obtain e3 where
          "deref s3 p = Some e3" "key e3 = key e'" "data e3 = data e'" by metis
        then show ?thesis
          using stored_SomeI [OF P1(1) in3, of e3 k'] p(3,4) Some by simp
      qed
      let ?R = "{p \<in> ptrs s. key_of s p \<noteq> Some (c_str k)}"
      have fin: "finite ?R" using finite_ptrs [of s] by simp
      have "E \<notin> ?R" using En by simp
      then have c3: "card (ptrs s3) = Suc (card ?R)" using pt3 fin by simp
      have "Suc (card ?R) = (if stored s k = None then Suc (card (ptrs s)) else card (ptrs s))"
      proof (cases "stored s k")
        case None
        then have "?R = ptrs s" by (auto simp: stored_None_iff)
        then show ?thesis using None by simp
      next
        case (Some d0)
        then obtain p0 where p0: "p0 \<in> ptrs s" "key_of s p0 = Some (c_str k)"
          using stored_None_iff [of s k] by auto
        have "p = p0" if "p \<in> ptrs s" "key_of s p = Some (c_str k)" for p
          using table_inv_key_inj [OF inv that(1) p0(1)] that(2) p0(2) by simp
        then have "?R = ptrs s - {p0}" using p0 by blast
        then have "card ?R = card (ptrs s) - 1" using p0(1) finite_ptrs [of s] by simp
        moreover have "0 < card (ptrs s)"
          using p0(1) finite_ptrs [of s] by (auto simp: card_gt_0_iff)
        ultimately show ?thesis using Some by simp
      qed
      then show ?thesis
        using keep c3 size_card [OF P1(1)] size_card [OF inv] by simp
    qed
    have B: "stored s k' = Some d'"
      if "(c_str k' \<noteq> c_str k \<or> \<not> True) \<and> stored s3 k' = Some d'" for k' d'
      using mono [of k' d'] that by simp
    have "refused s \<le> refused s3" using rf P1(2) by simp
    then have "add_post s k d True s3"
      unfolding add_post_def using P1(1) A B C by blast
    then show ?thesis using r3 True by auto
  qed
qed

lemma add_ok:
  assumes inv: "table_inv s"
  shows "\<exists>ok s'. hash_table_add s k d = Some (ok, s') \<and> add_post s k d ok s'"
proof (cases rule: entry_create_cases [of s k d])
  case (fail s1)
  have run: "hash_table_add s k d = Some (False, s1)"
    using fail(1) by (simp add: hash_table_add_def)
  have de: "\<forall>p \<in> ptrs s. deref s1 p = deref s p" using fail(3) by (simp add: deref_def)
  have "table_inv s1" using inv fail(4,6,5,7) de by (rule table_inv_cong)
  moreover have "stored s1 k' = stored s k'" for k' using fail(4) de by (rule stored_cong)
  ultimately have "add_post s k d False s1"
    unfolding add_post_def using fail(2) by simp
  then show ?thesis using run by blast
next
  case (ok rest)
  define E where "E = length (heap s)"
  define s1 where "s1 = s\<lparr>heap := heap s @ [Some \<lparr>key = c_str k, hash = djb2_hash k,
      data = d, dist_from_des = 0\<rparr>], allocs := rest\<rparr>"
  note c = entry_created [OF inv s1_def E_def]
  have cr: "hash_table_entry_create s k d = (Some E, s1)"
    using ok(2) by (simp add: E_def s1_def)
  have E1: "E \<notin> ptrs s1" using c(2,4) by simp
  obtain ee where ee: "deref s1 E = Some ee" "dist_from_des ee = 0"
    "hash ee = djb2_hash (key ee)"
    using c(3) by (auto simp: new_entry_def)
  have stage: "\<exists>ok2 s2.
      (if hash_table_should_resize_up_factor s1 then hash_table_resize s1 1
       else Some (True, s1)) = Some (ok2, s2)
      \<and> table_inv s2 \<and> (\<forall>p. payload s2 p = payload s1 p) \<and> ptrs s2 \<subseteq> ptrs s1
      \<and> refused s1 \<le> refused s2
      \<and> (\<not> ok2 \<longrightarrow> s2 = s1\<lparr>allocs := tl (allocs s1), refused := Suc (refused s1)\<rparr>)
      \<and> (refused s2 = refused s1 \<longrightarrow> ptrs s2 = ptrs s1)
      \<and> deref s2 E = deref s1 E \<and> E \<notin> ptrs s2"
  proof (cases "hash_table_should_resize_up_factor s1")
    case True
    obtain ok2 s2 where r: "hash_table_resize s1 1 = Some (ok2, s2)" "resize_post s1 ok2 s2"
      using resize_ok [OF insert_fuel_ok c(1) order_refl, of 1]
      unfolding hash_table_resize_def by blast
    have "deref s2 E = deref s1 E \<and> E \<notin> ptrs s2"
      using resize_frame [OF insert_fuel_frame r(1) [unfolded hash_table_resize_def] E1] .
    moreover have "table_inv s2 \<and> (\<forall>p. payload s2 p = payload s1 p) \<and> ptrs s2 \<subseteq> ptrs s1
      \<and> refused s1 \<le> refused s2
      \<and> (\<not> ok2 \<longrightarrow> s2 = s1\<lparr>allocs := tl (allocs s1), refused := Suc (refused s1)\<rparr>)
      \<and> (refused s2 = refused s1 \<longrightarrow> ptrs s2 = ptrs s1)"
      using r(2) unfolding resize_post_def by blast
    ultimately show ?thesis using True r(1) by simp
  next
    case False
    then show ?thesis using E1 c(1) by auto
  qed
  then obtain ok2 s2 where r2: "(if hash_table_should_resize_up_factor s1
       then hash_table_resize s1 1 else Some (True, s1)) = Some (ok2, s2)"
    and R: "table_inv s2" "\<And>p. payload s2 p = payload s1 p" "ptrs s2 \<subseteq> ptrs s1"
    "refused s1 \<le> refused s2"
    and no2: "\<not> ok2 \<Longrightarrow> s2 = s1\<lparr>allocs := tl (allocs s1), refused := Suc (refused s1)\<rparr>"
    and eq2: "refused s2 = refused s1 \<Longrightarrow> ptrs s2 = ptrs s1"
    and fr2: "deref s2 E = deref s1 E" "E \<notin> ptrs s2"
    by blast
  show ?thesis
  proof (cases ok2)
    case False
    then have s2: "s2 = s1\<lparr>allocs := tl (allocs s1), refused := Suc (refused s1)\<rparr>"
      using no2 by simp
    have "deref s2 E \<noteq> None" using fr2(1) ee(1) by simp
    from entry_free_unlinked [OF R(1) fr2(2) this] obtain s3 where
      s3: "hash_table_entry_free s2 E = Some s3" "table_inv s3"
      "\<And>k. stored s3 k = stored s2 k" "refused s3 = refused s2" by metis
    have run: "hash_table_add s k d = Some (False, s3)"
      using cr r2 False s3(1) by (simp add: hash_table_add_def)
    have "stored s2 k' = stored s1 k'" for k'
      by (rule stored_cong) (simp_all add: s2 deref_def)
    then have "stored s3 k' = stored s k'" for k' by (simp add: s3(3) c(9))
    moreover have "refused s < refused s3" by (simp add: s3(4) s2 c(7))
    ultimately have "add_post s k d False s3"
      unfolding add_post_def using s3(2) by simp
    then show ?thesis using run by blast
  next
    case True
    have new2: "new_entry s2 E"
      using ee fr2 by (simp add: new_entry_def)
    have pay: "payload s2 p = payload s p" if "p \<noteq> E" for p
      using R(2) c(5) [OF that] by simp
    have payE: "payload s2 E = Some (c_str k, djb2_hash k, d)"
      using R(2) c(6) by simp
    have sub: "ptrs s2 \<subseteq> ptrs s" using R(3) c(2) by simp
    have rf: "refused s \<le> refused s2" using R(4) c(7) by simp
    have eq: "ptrs s2 = ptrs s" if "refused s2 = refused s"
      using eq2 that c(2,7) by simp
    obtain ok3 s' where t: "(case hash_table_insert s2 E of
        None \<Rightarrow> None
      | Some (inserted, s3) \<Rightarrow>
          if \<not> inserted
          then (case hash_table_entry_free s3 E of None \<Rightarrow> None | Some s4 \<Rightarrow> Some (False, s4))
          else Some (True, s3)) = Some (ok3, s')"
      and post: "add_post s k d ok3 s'"
      using add_tail [OF inv R(1) new2 c(4) sub pay payE rf eq] by blast
    have run: "hash_table_add s k d = Some (ok3, s')"
      using cr r2 True t
      by (auto simp: hash_table_add_def split: option.splits prod.splits if_splits)
    then show ?thesis using post by blast
  qed
qed

lemma to_float_ge:
  assumes j: "24 \<le> j" and n: "2 ^ j \<le> n"
  shows "2 ^ j \<le> to_float n"
proof -
  define e where "e = bit_length n - 24"
  define q where "q = n div 2 ^ e"
  have b: "j < bit_length n" using n by (rule bit_length_gt)
  then have e: "bit_length n - 1 = 23 + e" "j \<le> 23 + e" using j by (simp_all add: e_def)
  have "(2::nat) ^ 24 \<le> 2 ^ j" using j by (intro power_increasing) simp_all
  then have big: "2 ^ 24 \<le> n" using n by simp
  then have "0 < n" by (simp add: order_less_le_trans [of 0 "2 ^ 24"])
  then have "2 ^ (23 + e) \<le> n" using bit_length_lower [of n] e by simp
  then have "2 ^ 23 * 2 ^ e \<le> n" by (simp add: power_add)
  then have q: "2 ^ 23 \<le> q"
    unfolding q_def by (simp add: less_eq_div_iff_mult_less_eq)
  have "(2::nat) ^ j \<le> 2 ^ (23 + e)" using e(2) by (intro power_increasing) simp_all
  also have "\<dots> = 2 ^ 23 * 2 ^ e" by (simp add: power_add)
  also have "\<dots> \<le> q * 2 ^ e" using q by (rule mult_le_mono1)
  finally have le: "2 ^ j \<le> q * 2 ^ e" .
  have "to_float n = q * 2 ^ e \<or> to_float n = (q + 1) * 2 ^ e"
    using big by (simp add: to_float_def Let_def e_def q_def)
  then show ?thesis using le by (auto simp: add_mult_distrib)
qed

lemma to_float_25_bits:
  assumes "2 ^ 24 \<le> n" "n < 2 ^ 25"
  shows "to_float n = (if even n \<or> even (n div 2) then n div 2 else n div 2 + 1) * 2"
proof -
  have "bit_length n \<le> 25" using assms(2) by (rule bit_length_le)
  moreover have "24 < bit_length n" using assms(1) by (rule bit_length_gt)
  ultimately have b: "bit_length n = 25" by simp
  have "n mod 2 < Suc 0 \<longleftrightarrow> even n" by presburger
  moreover have "n mod 2 = Suc 0 \<longleftrightarrow> odd n" by presburger
  ultimately show ?thesis
    using assms(1) by (auto simp: to_float_def Let_def b)
qed

lemma tenth_at_28:
  "2 ^ 27 * to_float n < 13421773 * 2 ^ 28 \<longleftrightarrow> 10 * n < 2 ^ 28"
proof -
  consider "n < 2 ^ 24" | "2 ^ 24 \<le> n" "n < 2 ^ 25" | "2 ^ 25 \<le> n" by linarith
  then show ?thesis
  proof cases
    case 1
    then show ?thesis by (simp add: to_float_exact)
  next
    case 2
    have "((if even n \<or> even (n div 2) then n div 2 else n div 2 + 1) * 2 < 26843546)
          \<longleftrightarrow> n < 26843546"
      by presburger
    moreover have "(n < 26843546) \<longleftrightarrow> (5 * n < 134217728)" by presburger
    ultimately show ?thesis using to_float_25_bits [OF 2] by simp
  next
    case 3
    from to_float_ge [OF _ 3] have "2 ^ 25 \<le> to_float n" by simp
    then show ?thesis using 3 by simp
  qed
qed

lemma grow_test_exact:
  assumes m: "unat (max_size t) = 2 ^ unat (max_size_shift t)"
    and k: "unat (max_size_shift t) \<le> 24"
  shows "hash_table_should_resize_up_factor t \<longleftrightarrow>
           3 * unat (max_size t) < 4 * unat (curr_size t + 1)"
proof -
  define k' where "k' = unat (max_size_shift t)"
  have m': "unat (max_size t) = 2 ^ k'" using m by (simp add: k'_def)
  have pk: "(2::nat) ^ k' \<le> 2 ^ 24" using k by (intro power_increasing) (simp_all add: k'_def)
  have f1: "to_float (2 ^ k') = 2 ^ k'" using to_float_scaled [of 1 k'] by simp
  have f3: "to_float (3 * 2 ^ k') = 3 * 2 ^ k'" using to_float_scaled [of 3 k'] by simp
  show ?thesis
  proof (cases "unat (curr_size t + 1) < 2 ^ 24")
    case True
    then show ?thesis
      by (simp add: hash_table_should_resize_up_factor_def m' f1 f3 to_float_exact)
  next
    case False
    then have big: "2 ^ 24 \<le> unat (curr_size t + 1)" by simp
    from to_float_ge [OF _ big] pk
    have "3 * 2 ^ k' < 4 * to_float (unat (curr_size t + 1))" by simp
    moreover have "3 * 2 ^ k' < 4 * unat (curr_size t + 1)" using big pk by simp
    ultimately show ?thesis
      by (simp add: hash_table_should_resize_up_factor_def m' f1 f3)
  qed
qed

lemma shrink_test_exact:
  assumes m: "unat (max_size t) = 2 ^ unat (max_size_shift t)"
    and k: "unat (max_size_shift t) \<le> 28"
  shows "hash_table_should_resize_down_factor t \<longleftrightarrow>
           HASH_TABLE_INITIAL_SHIFT < unat (max_size_shift t)
           \<and> 1 \<le> unat (curr_size t)
           \<and> 10 * (unat (curr_size t) - 1) < unat (max_size t)"
proof (cases "unat (max_size_shift t) \<le> HASH_TABLE_INITIAL_SHIFT")
  case True
  then show ?thesis by (simp add: hash_table_should_resize_down_factor_def)
next
  case shift: False
  define k' where "k' = unat (max_size_shift t)"
  define n where "n = unat (curr_size t - 1)"
  have m': "unat (max_size t) = 2 ^ k'" using m by (simp add: k'_def)
  have k1: "1 \<le> k'" "k' \<le> 28"
    using shift k by (simp_all add: HASH_TABLE_INITIAL_SHIFT_def k'_def)
  have pk: "(2::nat) ^ k' \<le> 2 ^ 28" using k1 by (intro power_increasing) simp_all
  have f1: "to_float (2 ^ k') = 2 ^ k'" using to_float_scaled [of 1 k'] by simp
  have f10: "to_float (13421773 * 2 ^ k') = 13421773 * 2 ^ k'"
    using to_float_scaled [of 13421773 k'] by simp
  have test: "hash_table_should_resize_down_factor t \<longleftrightarrow>
              2 ^ 27 * to_float n < 13421773 * 2 ^ k'"
    using shift by (simp add: hash_table_should_resize_down_factor_def m' f1 f10 n_def)
  have core: "2 ^ 27 * to_float n < 13421773 * 2 ^ k' \<longleftrightarrow> 10 * n < 2 ^ k'"
  proof (cases "k' = 28")
    case True
    then show ?thesis using tenth_at_28 [of n] by simp
  next
    case False
    then have k27: "k' \<le> 27" using k1 by simp
    then have p27: "(2::nat) ^ k' \<le> 2 ^ 27" by (intro power_increasing) simp_all
    show ?thesis
    proof (cases "n < 2 ^ 24")
      case True
      then show ?thesis using tenth_cases [OF k1(1) k27, of n] by (simp add: to_float_exact)
    next
      case False
      then have big: "2 ^ 24 \<le> n" by simp
      from to_float_ge [OF _ big]
      have "2 ^ 27 * 2 ^ 24 \<le> 2 ^ 27 * to_float n" by simp
      moreover have "13421773 * 2 ^ k' \<le> 13421773 * (2::nat) ^ 27" using p27 by simp
      ultimately have "\<not> 2 ^ 27 * to_float n < 13421773 * 2 ^ k'" by simp
      moreover have "\<not> 10 * n < 2 ^ k'" using big p27 by simp
      ultimately show ?thesis by simp
    qed
  qed
  show ?thesis
  proof (cases "curr_size t = 0")
    case True
    then have "n = 2 ^ 64 - 1" by (simp add: n_def unsigned_minus_1_eq_mask mask_eq_exp_minus_1)
    then have "\<not> 10 * n < 2 ^ k'" using pk by simp
    then show ?thesis using test core True by simp
  next
    case False
    then have "1 \<le> unat (curr_size t)" by (simp add: unat_gt_0 Suc_le_eq)
    moreover from this have "n = unat (curr_size t) - 1"
      unfolding n_def by (simp add: unat_sub word_le_nat_alt)
    ultimately show ?thesis using test core shift by (simp add: m' k'_def)
  qed
qed

lemmas run_simps =
  hash_table_add_def hash_table_remove_def hash_table_entry_create_def
  hash_table_entry_free_def alloc_request_def hash_table_buckets_alloc_def
  hash_table_resize_def hash_table_resize_with_def hash_table_rehash_with.simps
  hash_table_insert_def hash_table_insert_fuel.simps hash_table_insert_walk.simps
  hash_table_unwind_insertion_changes.simps hash_table_should_replace_entry_def
  hash_table_is_next_found_def hash_table_back_shift.simps
  hash_table_remove_from_position_def write_bucket_def
  hash_table_get_def hash_table_get_position_def iterate_to_next.simps
  hash_table_should_resize_up_factor_def hash_table_should_resize_down_factor_def
  HASH_TABLE_INITIAL_SHIFT_def to_float_def
  fibonacci_hash_def FIBONACCI_MULTIPLIER_def djb2_hash_def char_to_size_t_def c_str_def
  deref_def store_def bucket_at_def set_bucket_def Let_def

lemma entry_create_fields:
  assumes "hash_table_entry_create s k d = (r, s1)"
  shows "curr_size s1 = curr_size s" "max_size s1 = max_size s"
    "max_size_shift s1 = max_size_shift s"
  using assms
  by (auto simp: hash_table_entry_create_def alloc_request_def Let_def
        split: list.splits if_splits prod.splits)

lemma grow_test_real:
  assumes cap: "unat (max_size s) = 2 ^ unat (max_size_shift s)"
    and cnt: "unat (curr_size s) \<le> unat (max_size s) + unat (max_size_shift s)"
    and k: "unat (max_size_shift s) \<le> 24"
  shows "hash_table_should_resize_up_factor s \<longleftrightarrow>
           real (unat (curr_size s) + 1) > 0.75 * real (unat (max_size s))"
proof -
  have "(2::nat) ^ unat (max_size_shift s) \<le> 2 ^ 24"
    using k by (intro power_increasing) simp_all
  then have "unat (curr_size s) + 1 < 2 ^ 64" using cnt cap k by simp
  then have "unat (curr_size s + 1) = unat (curr_size s) + 1"
    by (simp add: unat_add_lem [THEN iffD1])
  then show ?thesis
    using grow_test_exact [OF cap k]
      three_quarters_real [of "unat (max_size s)" "unat (curr_size s) + 1"]
    by simp
qed

lemma shrink_test_real:
  assumes cap: "unat (max_size s) = 2 ^ unat (max_size_shift s)"
    and k: "unat (max_size_shift s) \<le> 28"
  shows "hash_table_should_resize_down_factor s \<longleftrightarrow>
           unat (max_size_shift s) > HASH_TABLE_INITIAL_SHIFT \<and> 1 \<le> unat (curr_size s)
           \<and> real (unat (curr_size s) - 1) < 0.10 * real (unat (max_size s))"
  using shrink_test_exact [OF cap k]
    one_tenth_real [of "unat (curr_size s) - 1" "unat (max_size s)"]
  by simp

text \<open>
  Claim C7, amended.  In a table of capacity \<open>2 ^ capacity_log2\<close>:
  \<^verbatim>\<open>hash_table_add\<close>, once the new entry is allocated, requests a one-step grow
  before the insertion exactly when \<open>count + 1\<close> exceeds 0.75 times the capacity,
  provided \<open>capacity_log2 \<le> 24\<close>, and requests none when the allocation of the
  entry fails; \<^verbatim>\<open>hash_table_remove\<close> requests a one-step shrink before the
  lookup exactly when \<open>capacity_log2 > K0\<close>, \<open>count \<ge> 1\<close> and \<open>count - 1\<close> is below
  0.10 times the capacity, provided \<open>capacity_log2 \<le> 28\<close>; the shrink test is
  never taken at \<open>capacity_log2 = K0\<close>.  (The insertion that follows the test of
  \<^verbatim>\<open>hash_table_add\<close> requests grows of its own when the probe window is
  exhausted.)
\<close>

theorem load_factor_resize_requests:
  assumes cap: "unat (max_size s) = 2 ^ unat (max_size_shift s)"
    and cnt: "unat (curr_size s) \<le> unat (max_size s) + unat (max_size_shift s)"
  shows "(unat (max_size_shift s) \<le> 24 \<longrightarrow>
           hash_table_add s k d =
             (case hash_table_entry_create s k d of
                (None, s1) \<Rightarrow> Some (False, s1)
              | (Some created, s1) \<Rightarrow>
                  do {
                    (resized, s2) \<leftarrow>
                      (if real (unat (curr_size s) + 1) > 0.75 * real (unat (max_size s))
                       then hash_table_resize s1 1 else Some (True, s1));
                    if \<not> resized then
                      do { s3 \<leftarrow> hash_table_entry_free s2 created; Some (False, s3) }
                    else do {
                      (inserted, s3) \<leftarrow> hash_table_insert s2 created;
                      if \<not> inserted then
                        do { s4 \<leftarrow> hash_table_entry_free s3 created; Some (False, s4) }
                      else Some (True, s3)
                    }
                  }))
       \<and> (unat (max_size_shift s) \<le> 28 \<longrightarrow>
           hash_table_remove s k =
             do {
               (resized, s1) \<leftarrow>
                 (if unat (max_size_shift s) > HASH_TABLE_INITIAL_SHIFT
                     \<and> 1 \<le> unat (curr_size s)
                     \<and> real (unat (curr_size s) - 1) < 0.10 * real (unat (max_size s))
                  then hash_table_resize s (- 1) else Some (True, s));
               if \<not> resized then Some (False, s1)
               else do {
                 h \<leftarrow> hash_table_get_position s1 k;
                 (position, probe_count) \<leftarrow> iterate_to_next s1 k (unat h) 0;
                 if \<not> hash_table_is_next_found s1 probe_count then Some (False, s1)
                 else do {
                   b \<leftarrow> bucket_at s1 position;
                   case b of
                     None \<Rightarrow> Some (False, s1)
                   | Some entry \<Rightarrow> do {
                       s2 \<leftarrow> hash_table_entry_free s1 entry;
                       hash_table_remove_from_position s2 position
                     }
                 }
               }
             })
       \<and> (unat (max_size_shift s) = HASH_TABLE_INITIAL_SHIFT \<longrightarrow>
             \<not> hash_table_should_resize_down_factor s)"
proof (intro conjI impI)
  assume k: "unat (max_size_shift s) \<le> 24"
  obtain r s1 where c: "hash_table_entry_create s k d = (r, s1)"
    by (cases "hash_table_entry_create s k d")
  note f = entry_create_fields [OF c]
  have "hash_table_should_resize_up_factor s1 = hash_table_should_resize_up_factor s"
    by (simp add: hash_table_should_resize_up_factor_def f)
  then have t: "hash_table_should_resize_up_factor s1 \<longleftrightarrow>
           real (unat (curr_size s) + 1) > 0.75 * real (unat (max_size s))"
    using grow_test_real [OF cap cnt k] by simp
  show "hash_table_add s k d =
             (case hash_table_entry_create s k d of
                (None, s1) \<Rightarrow> Some (False, s1)
              | (Some created, s1) \<Rightarrow>
                  do {
                    (resized, s2) \<leftarrow>
                      (if real (unat (curr_size s) + 1) > 0.75 * real (unat (max_size s))
                       then hash_table_resize s1 1 else Some (True, s1));
                    if \<not> resized then
                      do { s3 \<leftarrow> hash_table_entry_free s2 created; Some (False, s3) }
                    else do {
                      (inserted, s3) \<leftarrow> hash_table_insert s2 created;
                      if \<not> inserted then
                        do { s4 \<leftarrow> hash_table_entry_free s3 created; Some (False, s4) }
                      else Some (True, s3)
                    }
                  })"
    unfolding hash_table_add_def c using t by (cases r) simp_all
next
  assume k: "unat (max_size_shift s) \<le> 28"
  show "hash_table_remove s k =
             do {
               (resized, s1) \<leftarrow>
                 (if unat (max_size_shift s) > HASH_TABLE_INITIAL_SHIFT
                     \<and> 1 \<le> unat (curr_size s)
                     \<and> real (unat (curr_size s) - 1) < 0.10 * real (unat (max_size s))
                  then hash_table_resize s (- 1) else Some (True, s));
               if \<not> resized then Some (False, s1)
               else do {
                 h \<leftarrow> hash_table_get_position s1 k;
                 (position, probe_count) \<leftarrow> iterate_to_next s1 k (unat h) 0;
                 if \<not> hash_table_is_next_found s1 probe_count then Some (False, s1)
                 else do {
                   b \<leftarrow> bucket_at s1 position;
                   case b of
                     None \<Rightarrow> Some (False, s1)
                   | Some entry \<Rightarrow> do {
                       s2 \<leftarrow> hash_table_entry_free s1 entry;
                       hash_table_remove_from_position s2 position
                     }
                 }
               }
             }"
    unfolding hash_table_remove_def shrink_test_real [OF cap k] ..
next
  assume "unat (max_size_shift s) = HASH_TABLE_INITIAL_SHIFT"
  then show "\<not> hash_table_should_resize_down_factor s"
    by (simp add: hash_table_should_resize_down_factor_def)
qed

text \<open>
  In the table of twelve keys an add whose entry is allocated requests the
  grow (\<open>13 > 12\<close>), which the exhausted allocator refuses; in the table of
  32 buckets and four keys a remove requests the shrink (\<open>3 < 3.2\<close>), which
  is refused; with five keys (\<open>4 \<ge> 3.2\<close>) it requests none and removes the
  key \<^verbatim>\<open>j\<close>.
\<close>

theorem load_factor_resize_requests_witness:
  "hash_table_add (table_of_twelve\<lparr>allocs := [True, True]\<rparr>) [109] 13
     = Some (False, table_of_twelve\<lparr>heap := heap table_of_twelve @ [None], refused := 1\<rparr>)
   \<and> hash_table_remove table_of_four_at_32 [106]
     = Some (False, table_of_four_at_32\<lparr>refused := 1\<rparr>)
   \<and> map_option fst (hash_table_remove (table_of_four_at_32\<lparr>curr_size := 5\<rparr>) [106])
     = Some True"
  using load_factor_resize_requests [of "table_of_twelve\<lparr>allocs := [True, True]\<rparr>" "[109]" 13]
    load_factor_resize_requests [of table_of_four_at_32 "[106]"]
    load_factor_resize_requests [of "table_of_four_at_32\<lparr>curr_size := 5\<rparr>" "[106]"]
  by (simp add: table_of_twelve_def table_of_four_at_32_def hash_table_entry_create_def
        hash_table_entry_free_def alloc_request_def hash_table_buckets_alloc_def
        hash_table_resize_def hash_table_resize_with_def c_str_def deref_def Let_def
        HASH_TABLE_INITIAL_SHIFT_def hash_table_get_position_def fibonacci_hash_def
        FIBONACCI_MULTIPLIER_def djb2_hash_def char_to_size_t_def iterate_to_next.simps
        bucket_at_def hash_table_is_next_found_def hash_table_remove_from_position_def
        write_bucket_def set_bucket_def hash_table_back_shift.simps)

lemma overflow_run:
  "hash_table_add (table_of_four_colliding\<lparr>allocs := [True, True, True]\<rparr>) [99, 66, 89] 5
     = Some (True, table_of_five_colliding)"
  by (simp add: table_of_four_colliding_def table_of_five_colliding_def run_simps)
     (simp add: eval_nat_numeral)

text \<open>
  Claim C7 as stated fails in five ways.  The comparisons are made on rounded
  single-precision values: at capacity \<open>2^25\<close> and count 25165824, \<open>count + 1\<close>
  exceeds three quarters of the capacity but no grow is requested, and at
  capacity \<open>2^29\<close> and count 53687092, \<open>count - 1\<close> is below a tenth of the
  capacity but no shrink is requested.  In an empty table of 32 buckets
  \<open>count - 1\<close> is \<open>- 1\<close>, below a tenth of the capacity, and no shrink is
  requested (\<^verbatim>\<open>curr_size - 1\<close> wraps around).  In the table of twelve keys an
  add whose entry cannot be allocated requests no grow although \<open>13 > 12\<close>:
  the second answer of the allocator is not used.  In the table of four keys
  of equal digest the add of a fifth one, \<^verbatim>\<open>cBY\<close>, grows the table to 32
  buckets although \<open>5\<close> does not exceed \<open>12\<close>.
\<close>

theorem load_factor_claim_fails:
  "(real (unat (curr_size table_at_three_quarters + 1))
       > 0.75 * real (unat (max_size table_at_three_quarters))
     \<and> \<not> hash_table_should_resize_up_factor table_at_three_quarters)
   \<and> (unat (max_size_shift table_at_one_tenth) > HASH_TABLE_INITIAL_SHIFT
     \<and> real (unat (curr_size table_at_one_tenth - 1))
           < 0.10 * real (unat (max_size table_at_one_tenth))
     \<and> \<not> hash_table_should_resize_down_factor table_at_one_tenth)
   \<and> (unat (max_size_shift table_empty_at_32) > HASH_TABLE_INITIAL_SHIFT
     \<and> real_of_int (int (unat (curr_size table_empty_at_32)) - 1)
           < 0.10 * real (unat (max_size table_empty_at_32))
     \<and> \<not> hash_table_should_resize_down_factor table_empty_at_32)
   \<and> (real (unat (curr_size table_of_twelve) + 1) > 0.75 * real (unat (max_size table_of_twelve))
     \<and> hash_table_add (table_of_twelve\<lparr>allocs := [False, True]\<rparr>) [109] 13
         = Some (False, table_of_twelve\<lparr>allocs := [True], refused := 1\<rparr>))
   \<and> (\<not> real (unat (curr_size table_of_four_colliding) + 1)
           > 0.75 * real (unat (max_size table_of_four_colliding))
     \<and> hash_table_add (table_of_four_colliding\<lparr>allocs := [True, True, True]\<rparr>)
           [99, 66, 89] 5
         = Some (True, table_of_five_colliding))"
proof -
  have a: "real (unat (curr_size table_at_three_quarters + 1))
       > 0.75 * real (unat (max_size table_at_three_quarters))
     \<and> \<not> hash_table_should_resize_up_factor table_at_three_quarters"
    by (simp add: table_at_three_quarters_def hash_table_should_resize_up_factor_def
          to_float_def bit_length.simps Let_def)
  have b: "unat (max_size_shift table_at_one_tenth) > HASH_TABLE_INITIAL_SHIFT
     \<and> real (unat (curr_size table_at_one_tenth - 1))
           < 0.10 * real (unat (max_size table_at_one_tenth))
     \<and> \<not> hash_table_should_resize_down_factor table_at_one_tenth"
    by (simp add: table_at_one_tenth_def hash_table_should_resize_down_factor_def
          HASH_TABLE_INITIAL_SHIFT_def to_float_def bit_length.simps Let_def)
  have c: "unat (max_size_shift table_empty_at_32) > HASH_TABLE_INITIAL_SHIFT
     \<and> real_of_int (int (unat (curr_size table_empty_at_32)) - 1)
           < 0.10 * real (unat (max_size table_empty_at_32))
     \<and> \<not> hash_table_should_resize_down_factor table_empty_at_32"
    by (simp add: table_empty_at_32_def hash_table_should_resize_down_factor_def
          HASH_TABLE_INITIAL_SHIFT_def to_float_def bit_length.simps Let_def
          unsigned_minus_1_eq_mask mask_eq_exp_minus_1)
  have d: "real (unat (curr_size table_of_twelve) + 1) > 0.75 * real (unat (max_size table_of_twelve))
     \<and> hash_table_add (table_of_twelve\<lparr>allocs := [False, True]\<rparr>) [109] 13
         = Some (False, table_of_twelve\<lparr>allocs := [True], refused := 1\<rparr>)"
    by (simp add: table_of_twelve_def hash_table_add_def hash_table_entry_create_def
          alloc_request_def)
  have e: "\<not> real (unat (curr_size table_of_four_colliding) + 1)
           > 0.75 * real (unat (max_size table_of_four_colliding))
     \<and> hash_table_add (table_of_four_colliding\<lparr>allocs := [True, True, True]\<rparr>)
           [99, 66, 89] 5
         = Some (True, table_of_five_colliding)"
    using overflow_run by (simp add: table_of_four_colliding_def)
  from a b c d e show ?thesis by blast
qed

end
